theory Spec2Isabelle
  imports Complex_Main
begin

section \<open>Data model\<close>

text \<open>
  The module \<^verbatim>\<open>python/utils.py\<close> computes with IEEE floating-point numbers; here
  every float is an exact \<^typ>\<open>real\<close> and every complex float an exact \<^typ>\<open>complex\<close>.
  A one-dimensional array is a list, a two-dimensional array the list of its rows.

  Outcomes that are not a value of these types are errors of the model:
  the exceptions Python raises, and \<open>NonFinite\<close> for the places where numpy divides
  by zero and continues with an IEEE infinity or NaN (which no real number stands for).
\<close>

datatype error =
    AssertionError string
  | IndexError
  | ValueError
  | ZeroDivisionError
  | UnboundLocalError
  | NonFinite

type_synonym 'a result = "error + 'a"
type_synonym image = "real list list"

definition bindE :: "'a result \<Rightarrow> ('a \<Rightarrow> 'b result) \<Rightarrow> 'b result" where
  "bindE m k = (case m of Inl e \<Rightarrow> Inl e | Inr v \<Rightarrow> k v)"

text \<open>
  Indexing as Python and numpy do it: an index \<open>i\<close> into \<open>n\<close> elements is valid for
  \<open>-n \<le> i < n\<close>, a negative one counts from the end, anything else raises IndexError.
\<close>

definition py_index :: "nat \<Rightarrow> int \<Rightarrow> nat result" where
  "py_index n i =
     (if 0 \<le> i \<and> i < int n then Inr (nat i)
      else if - int n \<le> i \<and> i < 0 then Inr (nat (int n + i))
      else Inl IndexError)"

definition py_get :: "'a list \<Rightarrow> int \<Rightarrow> 'a result" where
  "py_get xs i = bindE (py_index (length xs) i) (\<lambda>k. Inr (xs ! k))"

text \<open>\<^verbatim>\<open>f[r, c]\<close> and \<^verbatim>\<open>f[r, c] = v\<close> on a two-dimensional array.\<close>

definition img_get :: "'a list list \<Rightarrow> int \<Rightarrow> int \<Rightarrow> 'a result" where
  "img_get f r c =
     bindE (py_index (length f) r) (\<lambda>r'.
     bindE (py_index (length (f ! r')) c) (\<lambda>c'. Inr (f ! r' ! c')))"

definition img_set :: "'a list list \<Rightarrow> int \<Rightarrow> int \<Rightarrow> 'a \<Rightarrow> 'a list list result" where
  "img_set f r c v =
     bindE (py_index (length f) r) (\<lambda>r'.
     bindE (py_index (length (f ! r')) c) (\<lambda>c'. Inr (f[r' := (f ! r')[c' := v]])))"

text \<open>\<^verbatim>\<open>np.zeros((nrow, ncol))\<close>.\<close>

definition zeros :: "nat \<Rightarrow> nat \<Rightarrow> image" where
  "zeros nrow ncol = replicate nrow (replicate ncol 0)"

text \<open>
  \<^verbatim>\<open>np.linspace(start, stop, num)\<close>: \<open>num\<close> evenly spaced samples, the first at
  \<open>start\<close>, the last at \<open>stop\<close>; a single sample is \<open>start\<close>.
\<close>

definition linspace :: "real \<Rightarrow> real \<Rightarrow> nat \<Rightarrow> real list" where
  "linspace start stop num =
     map (\<lambda>i. if num = 1 then start
               else start + real i * ((stop - start) / real (num - 1))) [0..<num]"

definition sec2rad :: real where
  "sec2rad = pi / 180 / 3600"

section \<open>Coordinate mapping\<close>

text \<open>
  \<^verbatim>\<open>uv_idx\<close> and \<^verbatim>\<open>uv_idx_r2c\<close> work on numpy arrays elementwise. The boolean
  mask \<^verbatim>\<open>uneg\<close> of \<^verbatim>\<open>uv_idx_r2c\<close> has the shape of \<^verbatim>\<open>udat\<close> and indexes an
  array of the shape of \<^verbatim>\<open>vdat\<close>, so the two lengths must agree.
\<close>

definition uv_idx :: "real list \<Rightarrow> real list \<Rightarrow> real \<Rightarrow> real \<Rightarrow> (real list \<times> real list) result" where
  "uv_idx udat vdat du half_size =
     (if du = 0 then Inl NonFinite
      else Inr (map (\<lambda>u. half_size + u / du) udat, map (\<lambda>v. half_size + v / du) vdat))"



section \<open>Bilinear sampling\<close>

text \<open>One pass of the loop body of \<^verbatim>\<open>int_bilin_MT\<close>, for the sample \<open>(xi, yi)\<close>.\<close>

definition bilin_sample :: "image \<Rightarrow> real \<Rightarrow> real \<Rightarrow> real result" where
  "bilin_sample f xi yi =
     (let t = yi - of_int \<lfloor>yi\<rfloor>;
          u = xi - of_int \<lfloor>xi\<rfloor>
      in bindE (img_get f \<lfloor>yi\<rfloor> \<lfloor>xi\<rfloor>) (\<lambda>y0.
         bindE (img_get f (\<lfloor>yi\<rfloor> + 1) \<lfloor>xi\<rfloor>) (\<lambda>y1.
         bindE (img_get f (\<lfloor>yi\<rfloor> + 1) (\<lfloor>xi\<rfloor> + 1)) (\<lambda>y2.
         bindE (img_get f \<lfloor>yi\<rfloor> (\<lfloor>xi\<rfloor> + 1)) (\<lambda>y3.
           Inr (t * u * (y0 - y1 + y2 - y3) + t * (y1 - y0) + u * (y3 - y0) + y0))))))"

text \<open>
  The loop \<^verbatim>\<open>for i in range(len(x))\<close>, writing \<^verbatim>\<open>fint[i]\<close>; \<^verbatim>\<open>y[i]\<close> raises
  IndexError when \<open>y\<close> is shorter than \<open>x\<close>.
\<close>

fun int_bilin_loop :: "image \<Rightarrow> real list \<Rightarrow> real list \<Rightarrow> nat list \<Rightarrow> real list \<Rightarrow> real list result" where
  "int_bilin_loop f x y [] fint = Inr fint"
| "int_bilin_loop f x y (i # is) fint =
     (case py_get y (int i) of
        Inl e \<Rightarrow> Inl e
      | Inr yi \<Rightarrow>
          (case bilin_sample f (x ! i) yi of
             Inl e \<Rightarrow> Inl e
           | Inr v \<Rightarrow> int_bilin_loop f x y is (fint[i := v])))"

definition int_bilin_MT :: "image \<Rightarrow> real list \<Rightarrow> real list \<Rightarrow> real list result" where
  "int_bilin_MT f x y = int_bilin_loop f x y [0..<length x] (replicate (length x) 0)"

text \<open>The four-neighbour formula of the specification, on in-range indices.\<close>

definition bilinear :: "image \<Rightarrow> real \<Rightarrow> real \<Rightarrow> real" where
  "bilinear f x y =
     (let f00 = f ! nat \<lfloor>y\<rfloor> ! nat \<lfloor>x\<rfloor>;
          f10 = f ! nat (\<lfloor>y\<rfloor> + 1) ! nat \<lfloor>x\<rfloor>;
          f11 = f ! nat (\<lfloor>y\<rfloor> + 1) ! nat (\<lfloor>x\<rfloor> + 1);
          f01 = f ! nat \<lfloor>y\<rfloor> ! nat (\<lfloor>x\<rfloor> + 1);
          t = y - of_int \<lfloor>y\<rfloor>;
          u = x - of_int \<lfloor>x\<rfloor>
      in t * u * (f00 - f10 + f11 - f01) + t * (f10 - f00) + u * (f01 - f00) + f00)"

text \<open>A sample is in range when its four neighbours are pixels of an \<open>nrow \<times> ncol\<close> image.\<close>

definition in_range :: "nat \<Rightarrow> nat \<Rightarrow> real \<Rightarrow> real \<Rightarrow> bool" where
  "in_range nrow ncol x y =
     (0 \<le> \<lfloor>x\<rfloor> \<and> \<lfloor>x\<rfloor> + 1 < int ncol \<and> 0 \<le> \<lfloor>y\<rfloor> \<and> \<lfloor>y\<rfloor> + 1 < int nrow)"

definition has_shape :: "'a list list \<Rightarrow> nat \<Rightarrow> nat \<Rightarrow> bool" where
  "has_shape f nrow ncol = (length f = nrow \<and> list_all (\<lambda>row. length row = ncol) f)"

section \<open>Phase shifts\<close>

text \<open>
  \<^verbatim>\<open>Fourier_shift_array\<close> multiplies each visibility by \<open>cos \<theta> + i sin \<theta>\<close>, with
  \<open>\<theta> = u x0 + v y0\<close> after \<open>x0\<close> and \<open>y0\<close> were scaled by \<open>sec2rad\<close> and \<open>2\<pi>\<close>.
  The three arrays are taken of one length (numpy would also stretch an array of length
  one, which the model leaves to the caller); another length is numpy's ValueError.
\<close>

definition Fourier_shift_array ::
  "real list \<Rightarrow> real list \<Rightarrow> complex list \<Rightarrow> real \<Rightarrow> real \<Rightarrow> complex list result" where
  "Fourier_shift_array u v fint x0 y0 =
     (if length v \<noteq> length u \<or> length fint \<noteq> length u then Inl ValueError
      else
        let x0' = x0 * sec2rad * (2 * pi);
            y0' = y0 * sec2rad * (2 * pi);
            theta = map (\<lambda>(uk, vk). uk * x0' + vk * y0') (zip u v)
        in Inr (map (\<lambda>(z, th). z * (complex_of_real (cos th) + \<i> * complex_of_real (sin th)))
                  (zip fint theta)))"

text \<open>
  \<^verbatim>\<open>np.fft.fftfreq(n)\<close> lists the frequencies \<open>0, 1, \<dots>, (n-1) div 2, -(n div 2), \<dots>, -1\<close>
  over \<open>n\<close>, and \<^verbatim>\<open>np.fft.fftshift\<close> rolls a sequence by half its length, which puts
  the zero frequency at index \<open>n div 2\<close>.
\<close>

definition fftfreq :: "nat \<Rightarrow> real list" where
  "fftfreq n =
     map (\<lambda>k. real_of_int k / real n) ([0..int ((n - 1) div 2)] @ [- int (n div 2)..-1])"

definition fftshift :: "'a list \<Rightarrow> 'a list" where
  "fftshift xs = rotate (length xs - length xs div 2) xs"

text \<open>
  \<^verbatim>\<open>Fourier_shift_static\<close>: the division by \<open>wle\<close> and \<^verbatim>\<open>fftfreq(0)\<close> raise
  ZeroDivisionError. The phase grid is \<open>nx \<times> nx\<close> for \<open>nx\<close> the number of rows of the
  transform; numpy multiplies it elementwise with a transform of \<open>nx \<times> m\<close> when
  \<open>m = nx\<close>, and by broadcasting when \<open>m = 1\<close> or \<open>nx = 1\<close>, and raises ValueError for
  every other shape. The product is written out on real and imaginary parts, as the
  source does.
\<close>

definition Fourier_shift_static ::
  "complex list list \<Rightarrow> real \<Rightarrow> real \<Rightarrow> real \<Rightarrow> real \<Rightarrow> complex list list result" where
  "Fourier_shift_static ft_centered x0 y0 wle maxuv =
     (let nx = length ft_centered;
          m = length (hd ft_centered)
      in if wle = 0 \<or> nx = 0 then Inl ZeroDivisionError
         else if \<not> has_shape ft_centered nx m \<or> \<not> (m = nx \<or> m = 1 \<or> nx = 1) then Inl ValueError
         else
           let sec2pixel = sec2rad / wle;
               x0' = x0 * sec2pixel;
               y0' = y0 * sec2pixel;
               spatial_freq = map (\<lambda>fr. maxuv * fr * 2 * pi) (fftshift (fftfreq nx));
               uv_grid = map (\<lambda>vv. map (\<lambda>uu. uu * x0' + vv * y0') spatial_freq) spatial_freq;
               v_shifted =
                 map (\<lambda>i. map (\<lambda>j.
                        let z = ft_centered ! i ! (if m = 1 then 0 else j);
                            th = uv_grid ! i ! (if nx = 1 then 0 else j);
                            re_v_shifted = Re z * cos th - Im z * sin th;
                            imag_v_shifted = Im z * cos th + Re z * sin th
                        in Complex re_v_shifted imag_v_shifted) [0..<max m nx]) [0..<nx]
           in Inr v_shifted)"

section \<open>Sampling a transform at visibility points\<close>

text \<open>
  \<^verbatim>\<open>int_bilin_MT\<close> writes its samples into the real array \<^verbatim>\<open>np.zeros(len(x))\<close>, so a
  complex transform is sampled through its real and its imaginary part, and the two
  results are put together again.
\<close>

definition sample_complex :: "complex list list \<Rightarrow> real list \<Rightarrow> real list \<Rightarrow> complex list result" where
  "sample_complex g x y =
     bindE (int_bilin_MT (map (map Re) g) x y) (\<lambda>re.
     bindE (int_bilin_MT (map (map Im) g) x y) (\<lambda>im.
       Inr (map (\<lambda>(a, b). Complex a b) (zip re im))))"

text \<open>
  The two ways to the shifted visibilities at the points \<open>(u, v)\<close>, as the specification
  words them. The grid form shifts the whole transform with \<^verbatim>\<open>Fourier_shift_static\<close>,
  maps the points to pixel coordinates with \<^verbatim>\<open>uv_idx\<close> and samples the shifted grid
  there; the point form samples the unshifted transform at the same pixel coordinates and
  shifts the samples with \<^verbatim>\<open>Fourier_shift_array\<close>. \<open>pixel_u\<close> runs along the columns
  and \<open>pixel_v\<close> along the rows, as \<^verbatim>\<open>np.meshgrid\<close> lays out the phase grid.
\<close>

definition grid_form_samples ::
  "complex list list \<Rightarrow> real list \<Rightarrow> real list \<Rightarrow> real \<Rightarrow> real \<Rightarrow> real \<Rightarrow> real \<Rightarrow> real \<Rightarrow> real
     \<Rightarrow> complex list result" where
  "grid_form_samples ft u v x0 y0 wle maxuv du half_size =
     bindE (Fourier_shift_static ft x0 y0 wle maxuv) (\<lambda>g.
     bindE (uv_idx u v du half_size) (\<lambda>(px, py).
       sample_complex g px py))"

definition point_form_samples ::
  "complex list list \<Rightarrow> real list \<Rightarrow> real list \<Rightarrow> real \<Rightarrow> real \<Rightarrow> real \<Rightarrow> real
     \<Rightarrow> complex list result" where
  "point_form_samples ft u v x0 y0 du half_size =
     bindE (uv_idx u v du half_size) (\<lambda>(px, py).
     bindE (sample_complex ft px py) (\<lambda>fint.
       Fourier_shift_array u v fint x0 y0))"

text \<open>
  The interpolation error allowed between the two at the pixel coordinates \<open>(x, y)\<close>:
  \<open>a\<close> and \<open>b\<close> are the phase advances from one column and from one row to the next,
  \<open>w\<close> and \<open>t\<close> the fractional parts of \<open>x\<close> and \<open>y\<close>, and \<open>f00, f10, f11, f01\<close> the
  four neighbours of the unshifted transform. It is zero at a grid node.
\<close>

definition interp_error_bound :: "complex list list \<Rightarrow> real \<Rightarrow> real \<Rightarrow> real \<Rightarrow> real \<Rightarrow> real" where
  "interp_error_bound ft a b x y =
     (let f00 = ft ! nat \<lfloor>y\<rfloor> ! nat \<lfloor>x\<rfloor>;
          f10 = ft ! nat (\<lfloor>y\<rfloor> + 1) ! nat \<lfloor>x\<rfloor>;
          f11 = ft ! nat (\<lfloor>y\<rfloor> + 1) ! nat (\<lfloor>x\<rfloor> + 1);
          f01 = ft ! nat \<lfloor>y\<rfloor> ! nat (\<lfloor>x\<rfloor> + 1);
          t = y - of_int \<lfloor>y\<rfloor>;
          w = x - of_int \<lfloor>x\<rfloor>
      in (\<bar>a\<bar> * w + \<bar>b\<bar> * t) * (norm f00 + norm f10 + norm f11 + norm f01))"


section \<open>Radial profile\<close>

text \<open>
  \<^verbatim>\<open>radial_profile\<close>: \<^verbatim>\<open>np.linspace\<close> raises ValueError for a negative number of
  samples; \<^verbatim>\<open>ints\<close> is assigned under \<^verbatim>\<open>mode == 'Gauss'\<close> and under
  \<^verbatim>\<open>mode == 'Cos-Gauss'\<close> only, so \<^verbatim>\<open>return ints\<close> raises UnboundLocalError for any
  other mode. The divisions are numpy's: by a zero \<open>delta_R\<close> or \<open>gauss_width\<close> they
  leave the reals.
\<close>

definition radial_profile :: "real \<Rightarrow> real \<Rightarrow> int \<Rightarrow> string \<Rightarrow> real \<Rightarrow> real list result" where
  "radial_profile Rmin delta_R nrad mode gauss_width =
     (if nrad < 0 then Inl ValueError
      else
        let gridrad = linspace Rmin (Rmin + delta_R * of_int (nrad - 1)) (nat nrad)
        in if mode = ''Gauss'' then
             (if 0 < nrad \<and> (delta_R = 0 \<or> gauss_width = 0) then Inl NonFinite
              else Inr (map (\<lambda>r. exp (- ((r / delta_R / gauss_width)\<^sup>2))) gridrad))
           else if mode = ''Cos-Gauss'' then
             (if 0 < nrad \<and> delta_R = 0 then Inl NonFinite
              else Inr (map (\<lambda>r. (cos (2 * pi * r / (50 * delta_R)))\<^sup>2
                                   * exp (- ((r / delta_R / 80)\<^sup>2))) gridrad))
           else Inl UnboundLocalError)"

section \<open>Radial sweep\<close>

subsection \<open>The nested-loop prototype\<close>

text \<open>
  The body of the double loop of \<^verbatim>\<open>g_sweep_prototype\<close> for the window position
  \<open>(irow, jcol)\<close>: the value it stores. The quotients are numpy's; a zero
  \<open>inc_cos\<close> or \<open>dR\<close> gives an infinity or NaN that \<^verbatim>\<open>np.int\<close> refuses.
  \<^verbatim>\<open>I[iR]\<close> and \<^verbatim>\<open>I[iR + 1]\<close> are Python's indexing, so a negative \<open>iR\<close> counts
  from the end of the profile or raises IndexError.
\<close>

definition sweep_pixel :: "real list \<Rightarrow> real \<Rightarrow> real \<Rightarrow> real \<Rightarrow> real \<Rightarrow> int \<Rightarrow> int \<Rightarrow> int \<Rightarrow> real result" where
  "sweep_pixel I Rmin dR dxy inc_cos rmax irow jcol =
     (let x = of_int (rmax - jcol) * dxy;
          y = of_int (rmax - irow) * dxy
      in if inc_cos = 0 \<or> dR = 0 then Inl NonFinite
         else
           let rr = sqrt ((x / inc_cos)\<^sup>2 + y\<^sup>2);
               iR = \<lfloor>(rr - Rmin) / dR\<rfloor>
           in if iR \<ge> int (length I) - 1 then Inr 0
              else bindE (py_get I iR) (\<lambda>a.
                   bindE (py_get I (iR + 1)) (\<lambda>b.
                     Inr (a + (rr - of_int iR * dR - Rmin) * (b - a) / dR))))"

text \<open>
  The two loops, over \<^verbatim>\<open>range(rmax*2)\<close> each, writing
  \<^verbatim>\<open>image[irow+row_offset, jcol+col_offset]\<close>; \<open>px\<close> is the loop body above.
\<close>

fun sweep_cols :: "(int \<Rightarrow> int \<Rightarrow> real result) \<Rightarrow> int \<Rightarrow> int \<Rightarrow> image \<Rightarrow> int \<Rightarrow> int list \<Rightarrow> image result" where
  "sweep_cols px row_offset col_offset img irow [] = Inr img"
| "sweep_cols px row_offset col_offset img irow (jcol # js) =
     (case px irow jcol of
        Inl e \<Rightarrow> Inl e
      | Inr v \<Rightarrow>
          (case img_set img (irow + row_offset) (jcol + col_offset) v of
             Inl e \<Rightarrow> Inl e
           | Inr img' \<Rightarrow> sweep_cols px row_offset col_offset img' irow js))"

fun sweep_rows :: "(int \<Rightarrow> int \<Rightarrow> real result) \<Rightarrow> int \<Rightarrow> int \<Rightarrow> image \<Rightarrow> int list \<Rightarrow> int list \<Rightarrow> image result" where
  "sweep_rows px row_offset col_offset img [] js = Inr img"
| "sweep_rows px row_offset col_offset img (irow # is) js =
     (case sweep_cols px row_offset col_offset img irow js of
        Inl e \<Rightarrow> Inl e
      | Inr img' \<Rightarrow> sweep_rows px row_offset col_offset img' is js)"

text \<open>
  \<^verbatim>\<open>g_sweep_prototype\<close>. The image sizes are natural numbers (numpy refuses negative
  ones), \<^verbatim>\<open>int(nrow / 2)\<close> is \<open>nrow div 2\<close> for them, and the quotient by \<open>dxy\<close> in
  \<open>rmax\<close> is one of Python floats, which raises ZeroDivisionError.
\<close>

definition g_sweep_prototype :: "real list \<Rightarrow> real \<Rightarrow> real \<Rightarrow> nat \<Rightarrow> nat \<Rightarrow> real \<Rightarrow> real \<Rightarrow> image result" where
  "g_sweep_prototype I Rmin dR nrow ncol dxy inc =
     (if \<not> Rmin \<le> dxy then Inl (AssertionError ''Rmin must be smaller or equal than dxy'')
      else
        let img = zeros nrow ncol;
            nrad = int (length I);
            irow_center = int (nrow div 2);
            icol_center = int (ncol div 2);
            inc_cos = cos (inc / 180 * pi)
        in if dxy = 0 then Inl ZeroDivisionError
           else
             let rmax = min \<lceil>(Rmin + of_int nrad * dR) / dxy\<rceil> irow_center;
                 row_offset = irow_center - rmax;
                 col_offset = icol_center - rmax
             in bindE (sweep_rows (sweep_pixel I Rmin dR dxy inc_cos rmax) row_offset col_offset
                         img [0..rmax * 2 - 1] [0..rmax * 2 - 1]) (\<lambda>img.
                  if Rmin \<noteq> 0 then
                    bindE (py_get I 0) (\<lambda>i0.
                    bindE (py_get I 1) (\<lambda>i1.
                      if dR = 0 then Inl ZeroDivisionError
                      else img_set img irow_center icol_center (i0 + Rmin * (i0 - i1) / dR)))
                  else Inr img))"

subsection \<open>The vectorized sweep\<close>

text \<open>
  \<^verbatim>\<open>scipy.interpolate.interp1d\<close> with \<^verbatim>\<open>kind='linear'\<close> and \<^verbatim>\<open>assume_sorted=True\<close>,
  after SciPy's implementation: \<^verbatim>\<open>searchsorted\<close> counts the entries of the ascending grid
  below the argument, the index is clipped to \<open>1 \<dots> len(x) - 1\<close>, and the value is read off
  the line through the two grid points at the index and before it. With
  \<^verbatim>\<open>bounds_error=False\<close> and a number as \<^verbatim>\<open>fill_value\<close>, an argument below \<open>x[0]\<close> or
  above \<open>x[-1]\<close> yields the fill value; with \<^verbatim>\<open>fill_value='extrapolate'\<close> the line is
  used everywhere. The count is what numpy's binary search returns on an ascending grid,
  which \<^verbatim>\<open>np.linspace\<close> gives for \<open>dR > 0\<close>; every statement about \<^verbatim>\<open>sweep_ref\<close>
  below is for such a grid.
\<close>

definition searchsorted :: "real list \<Rightarrow> real \<Rightarrow> nat" where
  "searchsorted xs v = length (takeWhile (\<lambda>x. x < v) xs)"

definition interp_linear :: "real list \<Rightarrow> real list \<Rightarrow> real \<Rightarrow> real" where
  "interp_linear xs ys x_new =
     (let idx = max 1 (min (searchsorted xs x_new) (length xs - 1));
          lo = idx - 1;
          hi = idx;
          slope = (ys ! hi - ys ! lo) / (xs ! hi - xs ! lo)
      in slope * (x_new - xs ! lo) + ys ! lo)"

definition interp1d_fill :: "real list \<Rightarrow> real list \<Rightarrow> real \<Rightarrow> real \<Rightarrow> real" where
  "interp1d_fill xs ys fill_value x_new =
     (if x_new < hd xs \<or> last xs < x_new then fill_value else interp_linear xs ys x_new)"

definition interp1d_extrapolate :: "real list \<Rightarrow> real list \<Rightarrow> real \<Rightarrow> real" where
  "interp1d_extrapolate xs ys x_new = interp_linear xs ys x_new"

text \<open>
  \<^verbatim>\<open>sweep_ref\<close>. \<^verbatim>\<open>1./float(ncol)\<close> raises ZeroDivisionError for an empty image.
  \<open>x_meshgrid\<close> is \<^verbatim>\<open>np.meshgrid\<close> followed by the square root: row \<open>i\<close>, column
  \<open>j\<close> holds the radius of \<open>(xs[j], ys[i])\<close>. A zero \<open>inc_cos\<close> or \<open>dR\<close> leads numpy
  through an infinity or NaN; \<^verbatim>\<open>interp1d\<close> refuses a grid of fewer than two points
  (ValueError).
\<close>

definition sweep_ref :: "real list \<Rightarrow> real \<Rightarrow> real \<Rightarrow> nat \<Rightarrow> nat \<Rightarrow> real \<Rightarrow> real \<Rightarrow> real \<Rightarrow> real \<Rightarrow> image result" where
  "sweep_ref I Rmin dR nrow ncol dxy inc Dx Dy =
     (let inc_cos = cos (inc / 180 * pi);
          nrad = length I;
          gridrad = linspace Rmin (Rmin + dR * (real nrad - 1)) nrad
      in if ncol = 0 \<or> nrow = 0 then Inl ZeroDivisionError
         else
           let x = map (\<lambda>t. t * dxy * real ncol) (linspace (1/2) (- (1/2) + 1 / real ncol) ncol);
               y = map (\<lambda>t. t * dxy * real nrow) (linspace (1/2) (- (1/2) + 1 / real nrow) nrow)
           in if inc_cos = 0 then Inl NonFinite
              else
                let xs = map (\<lambda>t. (t - Dx * dxy) / inc_cos) x;
                    ys = map (\<lambda>t. t - Dy * dxy) y;
                    x_meshgrid = map (\<lambda>yyy. map (\<lambda>xxx. sqrt (xxx\<^sup>2 + yyy\<^sup>2)) xs) ys
                in if nrad < 2 then Inl ValueError
                   else if dR = 0 then Inl NonFinite
                   else
                     let intensmap = map (map (interp1d_fill gridrad I 0)) x_meshgrid
                     in img_set intensmap (int (nrow div 2)) (int (ncol div 2))
                          (interp1d_extrapolate gridrad I 0))"

subsection \<open>The sweep as the specification words it\<close>

text \<open>
  The deprojected radius of the offset \<open>(x, y)\<close>, the truncated linear interpolant of a
  profile at a radius, the half-width \<open>rmax\<close> of the prototype's window and the value of
  the center pixel, each as the specification states it; the theorems compare the code
  with them.
\<close>

definition deproject :: "real \<Rightarrow> real \<Rightarrow> real \<Rightarrow> real" where
  "deproject x y inc = sqrt ((x / cos (inc / 180 * pi))\<^sup>2 + y\<^sup>2)"

definition profile_interpolant :: "real list \<Rightarrow> real \<Rightarrow> real \<Rightarrow> real \<Rightarrow> real" where
  "profile_interpolant I Rmin dR r =
     (let iR = \<lfloor>(r - Rmin) / dR\<rfloor>
      in if iR \<ge> int (length I) - 1 then 0
         else I ! nat iR + (r - of_int iR * dR - Rmin) * (I ! nat (iR + 1) - I ! nat iR) / dR)"

definition sweep_rmax :: "real list \<Rightarrow> real \<Rightarrow> real \<Rightarrow> nat \<Rightarrow> real \<Rightarrow> int" where
  "sweep_rmax I Rmin dR nrow dxy =
     min \<lceil>(Rmin + real (length I) * dR) / dxy\<rceil> (int (nrow div 2))"

definition center_value :: "real list \<Rightarrow> real \<Rightarrow> real \<Rightarrow> real" where
  "center_value I Rmin dR = I ! 0 + Rmin * (I ! 0 - I ! 1) / dR"


section \<open>Basic facts\<close>

lemma bindE_Inr [simp]: "bindE (Inr v) k = k v"
  by (simp add: bindE_def)

lemma bindE_Inl [simp]: "bindE (Inl e) k = Inl e"
  by (simp add: bindE_def)

lemma py_index_ok: "0 \<le> i \<Longrightarrow> i < int n \<Longrightarrow> py_index n i = Inr (nat i)"
  by (simp add: py_index_def)

lemma py_get_ok: "0 \<le> i \<Longrightarrow> i < int (length xs) \<Longrightarrow> py_get xs i = Inr (xs ! nat i)"
  by (simp add: py_get_def py_index_ok)

lemma has_shape_row: "has_shape f nrow ncol \<Longrightarrow> r < nrow \<Longrightarrow> length (f ! r) = ncol"
  by (simp add: has_shape_def list_all_length)

lemma img_get_ok:
  assumes "has_shape f nrow ncol" "0 \<le> r" "r < int nrow" "0 \<le> c" "c < int ncol"
  shows "img_get f r c = Inr (f ! nat r ! nat c)"
proof -
  have "length f = nrow" using assms(1) by (simp add: has_shape_def)
  moreover have "length (f ! nat r) = ncol"
    using assms(1-3) by (intro has_shape_row) auto
  ultimately show ?thesis
    using assms(2-5) by (simp add: img_get_def py_index_ok)
qed

lemma bilin_sample_ok:
  assumes "has_shape f nrow ncol" "in_range nrow ncol x y"
  shows "bilin_sample f x y = Inr (bilinear f x y)"
proof -
  have b: "0 \<le> \<lfloor>x\<rfloor>" "\<lfloor>x\<rfloor> + 1 < int ncol" "0 \<le> \<lfloor>y\<rfloor>" "\<lfloor>y\<rfloor> + 1 < int nrow"
    using assms(2) by (simp_all add: in_range_def)
  have g00: "img_get f \<lfloor>y\<rfloor> \<lfloor>x\<rfloor> = Inr (f ! nat \<lfloor>y\<rfloor> ! nat \<lfloor>x\<rfloor>)"
    using b by (intro img_get_ok[OF assms(1)]) auto
  have g10: "img_get f (\<lfloor>y\<rfloor> + 1) \<lfloor>x\<rfloor> = Inr (f ! nat (\<lfloor>y\<rfloor> + 1) ! nat \<lfloor>x\<rfloor>)"
    using b by (intro img_get_ok[OF assms(1)]) auto
  have g11: "img_get f (\<lfloor>y\<rfloor> + 1) (\<lfloor>x\<rfloor> + 1) = Inr (f ! nat (\<lfloor>y\<rfloor> + 1) ! nat (\<lfloor>x\<rfloor> + 1))"
    using b by (intro img_get_ok[OF assms(1)]) auto
  have g01: "img_get f \<lfloor>y\<rfloor> (\<lfloor>x\<rfloor> + 1) = Inr (f ! nat \<lfloor>y\<rfloor> ! nat (\<lfloor>x\<rfloor> + 1))"
    using b by (intro img_get_ok[OF assms(1)]) auto
  show ?thesis
    by (simp add: bilin_sample_def bilinear_def g00 g10 g11 g01 Let_def)
qed

lemma int_bilin_loop_ok:
  assumes "has_shape f nrow ncol"
    and "\<forall>i\<in>set is. i < length x \<and> i < length y \<and> in_range nrow ncol (x ! i) (y ! i)"
  shows "\<exists>out. int_bilin_loop f x y is fint = Inr out \<and> length out = length fint \<and>
           (\<forall>j<length fint. out ! j = (if j \<in> set is then bilinear f (x ! j) (y ! j) else fint ! j))"
  using assms(2)
proof (induction "is" arbitrary: fint)
  case Nil
  then show ?case by simp
next
  case (Cons i "is")
  have i: "i < length x" "i < length y" "in_range nrow ncol (x ! i) (y ! i)"
    using Cons.prems by simp_all
  have rest: "\<forall>i\<in>set is. i < length x \<and> i < length y \<and> in_range nrow ncol (x ! i) (y ! i)"
    using Cons.prems by simp
  obtain out where out: "int_bilin_loop f x y is (fint[i := bilinear f (x ! i) (y ! i)]) = Inr out"
    "length out = length fint"
    "\<forall>j<length fint. out ! j =
        (if j \<in> set is then bilinear f (x ! j) (y ! j)
         else fint[i := bilinear f (x ! i) (y ! i)] ! j)"
    using Cons.IH[OF rest, of "fint[i := bilinear f (x ! i) (y ! i)]"] by auto
  have step: "int_bilin_loop f x y (i # is) fint = Inr out"
    using i out(1) by (simp add: py_get_ok bilin_sample_ok[OF assms(1)])
  have "\<forall>j<length fint. out ! j =
          (if j \<in> set (i # is) then bilinear f (x ! j) (y ! j) else fint ! j)"
    using out(3) by (auto simp: nth_list_update)
  with step out(2) show ?case by blast
qed


lemma length_fftfreq: "0 < n \<Longrightarrow> length (fftfreq n) = n"
  by (simp add: fftfreq_def)

lemma length_fftshift [simp]: "length (fftshift xs) = length xs"
  by (simp add: fftshift_def)

lemma phase_cis: "Complex (Re z * cos th - Im z * sin th) (Im z * cos th + Re z * sin th) = z * cis th"
  by (simp add: complex_eq_iff)

lemma phase_point: "complex_of_real (cos th) + \<i> * complex_of_real (sin th) = cis th"
  by (simp add: complex_eq_iff)

lemma cis_back: "z * cis th * cis (- th) = z"
  by (simp add: mult.assoc cis_mult)

lemma Fourier_shift_array_value:
  assumes "length v = length u" "length fint = length u"
  shows "Fourier_shift_array u v fint x0 y0 =
    Inr (map (\<lambda>k. fint ! k * cis (u ! k * (x0 * sec2rad * (2 * pi)) + v ! k * (y0 * sec2rad * (2 * pi))))
          [0..<length u])"
  using assms
  by (auto simp: Fourier_shift_array_def Let_def phase_point intro!: nth_equalityI)

lemma Fourier_shift_static_value:
  assumes "has_shape ft nx nx" "0 < nx" "wle \<noteq> 0"
  shows "Fourier_shift_static ft x0 y0 wle maxuv =
    Inr (map (\<lambda>i. map (\<lambda>j. ft ! i ! j *
            cis ((maxuv * (fftshift (fftfreq nx) ! j) * 2 * pi) * (x0 * (sec2rad / wle))
               + (maxuv * (fftshift (fftfreq nx) ! i) * 2 * pi) * (y0 * (sec2rad / wle))))
          [0..<nx]) [0..<nx])"
proof -
  have l: "length ft = nx" using assms(1) by (simp add: has_shape_def)
  have "ft \<noteq> []" using l assms(2) by auto
  then have "hd ft = ft ! 0" by (simp add: hd_conv_nth)
  then have m: "length (hd ft) = nx"
    using has_shape_row[OF assms(1), of 0] assms(2) by simp
  have lf: "length (fftshift (fftfreq nx)) = nx"
    using assms(2) by (simp add: length_fftfreq)
  show ?thesis
    using assms l m lf
    by (simp add: Fourier_shift_static_def Let_def phase_cis)
qed

lemma linspace_grid:
  "linspace Rmin (Rmin + dR * (real n - 1)) n = map (\<lambda>i. Rmin + real i * dR) [0..<n]"
proof (cases "n \<le> 1")
  case True
  then have "n = 0 \<or> n = 1" by auto
  then show ?thesis by (auto simp: linspace_def)
next
  case False
  then have "real (n - 1) = real n - 1" "real n - 1 \<noteq> 0" by auto
  then show ?thesis using False by (simp add: linspace_def)
qed

lemma linspace_grid_int:
  assumes "0 \<le> nrad"
  shows "linspace Rmin (Rmin + dR * of_int (nrad - 1)) (nat nrad)
         = map (\<lambda>i. Rmin + real i * dR) [0..<nat nrad]"
proof -
  have "real_of_int (nrad - 1) = real (nat nrad) - 1" using assms by simp
  then show ?thesis by (simp only: linspace_grid)
qed

lemma radial_profile_Gauss:
  assumes "0 \<le> nrad" "delta_R \<noteq> 0" "gauss_width \<noteq> 0"
  shows "radial_profile Rmin delta_R nrad ''Gauss'' gauss_width =
        Inr (map (\<lambda>i. exp (- (((Rmin + real i * delta_R) / delta_R / gauss_width)\<^sup>2)))
               [0..<nat nrad])"
proof -
  have "radial_profile Rmin delta_R nrad ''Gauss'' gauss_width =
      Inr (map (\<lambda>r. exp (- ((r / delta_R / gauss_width)\<^sup>2)))
            (linspace Rmin (Rmin + delta_R * of_int (nrad - 1)) (nat nrad)))"
    unfolding radial_profile_def Let_def using assms by simp
  then show ?thesis
    by (simp only: linspace_grid_int[OF assms(1)] map_map comp_def)
qed

lemma radial_profile_Cos_Gauss:
  assumes "0 \<le> nrad" "delta_R \<noteq> 0"
  shows "radial_profile Rmin delta_R nrad ''Cos-Gauss'' gauss_width =
        Inr (map (\<lambda>i. (cos (2 * pi * (Rmin + real i * delta_R) / (50 * delta_R)))\<^sup>2
                        * exp (- (((Rmin + real i * delta_R) / delta_R / 80)\<^sup>2)))
               [0..<nat nrad])"
proof -
  have "radial_profile Rmin delta_R nrad ''Cos-Gauss'' gauss_width =
      Inr (map (\<lambda>r. (cos (2 * pi * r / (50 * delta_R)))\<^sup>2 * exp (- ((r / delta_R / 80)\<^sup>2)))
            (linspace Rmin (Rmin + delta_R * of_int (nrad - 1)) (nat nrad)))"
    unfolding radial_profile_def Let_def using assms by simp
  then show ?thesis
    by (simp only: linspace_grid_int[OF assms(1)] map_map comp_def)
qed

lemma radial_profile_other:
  assumes "mode \<noteq> ''Gauss''" "mode \<noteq> ''Cos-Gauss''"
  shows "radial_profile Rmin delta_R nrad mode gauss_width =
        Inl (if nrad < 0 then ValueError else UnboundLocalError)"
  using assms by (simp add: radial_profile_def Let_def)

lemma sqrt2_floor: "\<lfloor>sqrt 2\<rfloor> = 1"
proof -
  have "1 \<le> sqrt 2" by simp
  moreover have "sqrt 2 < 2"
    by (rule real_less_lsqrt) simp_all
  ultimately show ?thesis by (simp add: floor_unique)
qed

lemma sqrt2_less_2: "sqrt 2 < 2"
  by (rule real_less_lsqrt) simp_all

lemma replicate_2: "replicate 2 x = [x, x]"
  by (simp add: numeral_2_eq_2)

section \<open>The loops of the prototype\<close>

text \<open>
  What the two loops leave in the image: a write to \<open>(irow+row_offset, jcol+col_offset)\<close>
  with a column that is not negative is not overwritten by a later one, since the later
  columns are larger; a negative column wraps to the end of the row and may be overwritten.
\<close>

lemma py_index_less: "py_index n i = Inr k \<Longrightarrow> k < n"
  by (auto simp: py_index_def split: if_splits)

lemma py_index_nonneg: "0 \<le> i \<Longrightarrow> py_index n i = Inr k \<Longrightarrow> k = nat i \<and> i < int n"
  by (auto simp: py_index_def split: if_splits)

lemma bindE_eq_Inr: "bindE m k = Inr v \<longleftrightarrow> (\<exists>a. m = Inr a \<and> k a = Inr v)"
  by (cases m) simp_all

lemma img_set_Inr:
  assumes "img_set f r c v = Inr f'"
  obtains r' c' where "py_index (length f) r = Inr r'" "py_index (length (f ! r')) c = Inr c'"
    "f' = f[r' := (f ! r')[c' := v]]"
  using assms by (auto simp: img_set_def bindE_eq_Inr)

lemma img_set_shape:
  assumes "img_set f r c v = Inr f'" "has_shape f nrow ncol"
  shows "has_shape f' nrow ncol"
proof -
  obtain r' c' where *: "py_index (length f) r = Inr r'" "f' = f[r' := (f ! r')[c' := v]]"
    using assms(1) by (rule img_set_Inr)
  have "r' < length f" using *(1) by (rule py_index_less)
  then show ?thesis
    using assms(2) unfolding *(2) has_shape_def list_all_length
    by (auto simp: nth_list_update)
qed

lemma img_set_nth:
  assumes "img_set f r c v = Inr f'" "has_shape f nrow ncol" "a < nrow" "b < ncol"
  shows "f' ! a ! b = (if py_index nrow r = Inr a \<and> py_index ncol c = Inr b then v else f ! a ! b)"
proof -
  obtain r' c' where *: "py_index (length f) r = Inr r'" "py_index (length (f ! r')) c = Inr c'"
    "f' = f[r' := (f ! r')[c' := v]]"
    using assms(1) by (rule img_set_Inr)
  have lf: "length f = nrow" using assms(2) by (simp add: has_shape_def)
  have r': "r' < nrow" using *(1) lf py_index_less by metis
  have lr: "length (f ! r') = ncol" by (rule has_shape_row[OF assms(2) r'])
  have la: "length (f ! a) = ncol" by (rule has_shape_row[OF assms(2,3)])
  show ?thesis
    using * lf lr la r' assms(3,4) by (auto simp: nth_list_update)
qed

lemma sweep_cols_shape:
  assumes "sweep_cols px ro co img irow js = Inr img'" "has_shape img nrow ncol"
  shows "has_shape img' nrow ncol"
  using assms
proof (induction js arbitrary: img)
  case Nil
  then show ?case by simp
next
  case (Cons j js)
  from Cons.prems(1) obtain v img1 where
    s: "px irow j = Inr v" "img_set img (irow + ro) (j + co) v = Inr img1"
       "sweep_cols px ro co img1 irow js = Inr img'"
    by (auto split: sum.splits)
  show ?case
    using Cons.IH[OF s(3) img_set_shape[OF s(2) Cons.prems(2)]] .
qed

lemma sweep_cols_frame:
  assumes "sweep_cols px ro co img irow js = Inr img'" "has_shape img nrow ncol"
    and "a < nrow" "b < ncol"
    and "py_index nrow (irow + ro) \<noteq> Inr a \<or> (\<forall>j\<in>set js. py_index ncol (j + co) \<noteq> Inr b)"
  shows "img' ! a ! b = img ! a ! b"
  using assms(1,2,5)
proof (induction js arbitrary: img)
  case Nil
  then show ?case by simp
next
  case (Cons j js)
  from Cons.prems(1) obtain v img1 where
    s: "px irow j = Inr v" "img_set img (irow + ro) (j + co) v = Inr img1"
       "sweep_cols px ro co img1 irow js = Inr img'"
    by (auto split: sum.splits)
  have sh1: "has_shape img1 nrow ncol" by (rule img_set_shape[OF s(2) Cons.prems(2)])
  have "img' ! a ! b = img1 ! a ! b"
    using Cons.IH[OF s(3) sh1] Cons.prems(3) by auto
  also have "img1 ! a ! b = img ! a ! b"
    using img_set_nth[OF s(2) Cons.prems(2) assms(3,4)] Cons.prems(3) by auto
  finally show ?case .
qed

lemma sweep_cols_value:
  assumes "sweep_cols px ro co img irow js = Inr img'" "has_shape img nrow ncol"
    and "0 \<le> irow + ro" "sorted_wrt (<) js" "j \<in> set js" "0 \<le> j + co"
  shows "nat (irow + ro) < nrow \<and> nat (j + co) < ncol \<and>
         px irow j = Inr (img' ! nat (irow + ro) ! nat (j + co))"
  using assms(1,2,4,5)
proof (induction js arbitrary: img)
  case Nil
  then show ?case by simp
next
  case (Cons j0 js)
  from Cons.prems(1) obtain v img1 where
    s: "px irow j0 = Inr v" "img_set img (irow + ro) (j0 + co) v = Inr img1"
       "sweep_cols px ro co img1 irow js = Inr img'"
    by (auto split: sum.splits)
  have sh1: "has_shape img1 nrow ncol" by (rule img_set_shape[OF s(2) Cons.prems(2)])
  have srt: "sorted_wrt (<) js" using Cons.prems(3) by simp
  show ?case
  proof (cases "j = j0")
    case True
    obtain r' c' where *: "py_index (length img) (irow + ro) = Inr r'"
      "py_index (length (img ! r')) (j0 + co) = Inr c'"
      using s(2) by (rule img_set_Inr)
    have lf: "length img = nrow" using Cons.prems(2) by (simp add: has_shape_def)
    have r': "r' = nat (irow + ro)" "irow + ro < int nrow"
      using py_index_nonneg[OF assms(3) *(1)] lf by auto
    then have rl: "nat (irow + ro) < nrow" using assms(3) by auto
    have lr: "length (img ! r') = ncol" using has_shape_row[OF Cons.prems(2)] rl r' by simp
    have c': "c' = nat (j + co)" "j + co < int ncol"
      using py_index_nonneg[OF assms(6)] *(2) lr True by auto
    then have cl: "nat (j + co) < ncol" using assms(6) by auto
    have pr: "py_index nrow (irow + ro) = Inr (nat (irow + ro))"
      using *(1) lf r' by simp
    have pc: "py_index ncol (j + co) = Inr (nat (j + co))"
      using *(2) lr c' True by simp
    have v1: "img1 ! nat (irow + ro) ! nat (j + co) = v"
      using img_set_nth[OF s(2) Cons.prems(2) rl cl] pr pc True by simp
    have later: "\<forall>j'\<in>set js. py_index ncol (j' + co) \<noteq> Inr (nat (j + co))"
    proof
      fix j' assume "j' \<in> set js"
      then have "j < j'" using Cons.prems(3) True by auto
      then have "0 \<le> j' + co" "nat (j' + co) \<noteq> nat (j + co)" using assms(6) by auto
      then show "py_index ncol (j' + co) \<noteq> Inr (nat (j + co))"
        by (auto simp: py_index_def)
    qed
    have "img' ! nat (irow + ro) ! nat (j + co) = img1 ! nat (irow + ro) ! nat (j + co)"
      using sweep_cols_frame[OF s(3) sh1 rl cl] later by blast
    with v1 s(1) True rl cl show ?thesis by simp
  next
    case False
    then have "j \<in> set js" using Cons.prems(4) by simp
    from Cons.IH[OF s(3) sh1 srt this] show ?thesis .
  qed
qed

lemma sweep_rows_shape:
  assumes "sweep_rows px ro co img is js = Inr img'" "has_shape img nrow ncol"
  shows "has_shape img' nrow ncol"
  using assms
proof (induction "is" arbitrary: img)
  case Nil
  then show ?case by simp
next
  case (Cons i "is")
  from Cons.prems(1) obtain img1 where
    s: "sweep_cols px ro co img i js = Inr img1" "sweep_rows px ro co img1 is js = Inr img'"
    by (auto split: sum.splits)
  show ?case using Cons.IH[OF s(2) sweep_cols_shape[OF s(1) Cons.prems(2)]] .
qed

lemma sweep_rows_frame:
  assumes "sweep_rows px ro co img is js = Inr img'" "has_shape img nrow ncol"
    and "a < nrow" "b < ncol"
    and "(\<forall>i\<in>set is. py_index nrow (i + ro) \<noteq> Inr a) \<or> (\<forall>j\<in>set js. py_index ncol (j + co) \<noteq> Inr b)"
  shows "img' ! a ! b = img ! a ! b"
  using assms(1,2,5)
proof (induction "is" arbitrary: img)
  case Nil
  then show ?case by simp
next
  case (Cons i "is")
  from Cons.prems(1) obtain img1 where
    s: "sweep_cols px ro co img i js = Inr img1" "sweep_rows px ro co img1 is js = Inr img'"
    by (auto split: sum.splits)
  have sh1: "has_shape img1 nrow ncol" by (rule sweep_cols_shape[OF s(1) Cons.prems(2)])
  have "img' ! a ! b = img1 ! a ! b"
    using Cons.IH[OF s(2) sh1] Cons.prems(3) by auto
  also have "img1 ! a ! b = img ! a ! b"
    using sweep_cols_frame[OF s(1) Cons.prems(2) assms(3,4)] Cons.prems(3) by auto
  finally show ?case .
qed

lemma sweep_rows_value:
  assumes "sweep_rows px ro co img is js = Inr img'" "has_shape img nrow ncol"
    and "\<forall>i\<in>set is. 0 \<le> i + ro" "sorted_wrt (<) is" "sorted_wrt (<) js"
    and "i \<in> set is" "j \<in> set js" "0 \<le> j + co"
  shows "nat (i + ro) < nrow \<and> nat (j + co) < ncol \<and>
         px i j = Inr (img' ! nat (i + ro) ! nat (j + co))"
  using assms(1,2,3,4,6)
proof (induction "is" arbitrary: img)
  case Nil
  then show ?case by simp
next
  case (Cons i0 "is")
  from Cons.prems(1) obtain img1 where
    s: "sweep_cols px ro co img i0 js = Inr img1" "sweep_rows px ro co img1 is js = Inr img'"
    by (auto split: sum.splits)
  have sh1: "has_shape img1 nrow ncol" by (rule sweep_cols_shape[OF s(1) Cons.prems(2)])
  show ?case
  proof (cases "i = i0")
    case True
    have i0: "0 \<le> i0 + ro" using Cons.prems(3) by simp
    have v: "nat (i0 + ro) < nrow \<and> nat (j + co) < ncol \<and>
         px i0 j = Inr (img1 ! nat (i0 + ro) ! nat (j + co))"
      by (rule sweep_cols_value[OF s(1) Cons.prems(2) i0 assms(5,7,8)])
    have later: "\<forall>i'\<in>set is. py_index nrow (i' + ro) \<noteq> Inr (nat (i0 + ro))"
    proof
      fix i' assume i': "i' \<in> set is"
      then have "i0 < i'" using Cons.prems(4) by auto
      then have "0 \<le> i' + ro" "nat (i' + ro) \<noteq> nat (i0 + ro)" using i0 by auto
      then show "py_index nrow (i' + ro) \<noteq> Inr (nat (i0 + ro))"
        by (auto simp: py_index_def)
    qed
    have "img' ! nat (i0 + ro) ! nat (j + co) = img1 ! nat (i0 + ro) ! nat (j + co)"
      using sweep_rows_frame[OF s(2) sh1, of "nat (i0 + ro)" "nat (j + co)"] v later by blast
    with v True show ?thesis by simp
  next
    case False
    then have mem: "i \<in> set is" using Cons.prems(5) by simp
    have a: "\<forall>i\<in>set is. 0 \<le> i + ro" using Cons.prems(3) by simp
    have b: "sorted_wrt (<) is" using Cons.prems(4) by simp
    from Cons.IH[OF s(2) sh1 a b mem] show ?thesis .
  qed
qed

lemma has_shape_zeros: "has_shape (zeros nrow ncol) nrow ncol"
  by (simp add: has_shape_def zeros_def list_all_length)

lemma zeros_nth: "r < nrow \<Longrightarrow> c < ncol \<Longrightarrow> zeros nrow ncol ! r ! c = 0"
  by (simp add: zeros_def)

lemma radius_ge:
  fixes a b :: int
  assumes "a \<noteq> 0 \<or> b \<noteq> 0" "cs \<noteq> 0" "\<bar>cs\<bar> \<le> 1"
  shows "\<bar>dxy\<bar> \<le> sqrt ((of_int a * dxy / cs)\<^sup>2 + (of_int b * dxy)\<^sup>2)"
proof -
  from assms(1) show ?thesis
  proof
    assume "a \<noteq> 0"
    then have a1: "1 \<le> \<bar>real_of_int a\<bar>" by linarith
    have "\<bar>dxy\<bar> * \<bar>cs\<bar> \<le> \<bar>dxy\<bar> * 1"
      by (rule mult_left_mono[OF assms(3)]) simp
    also have "\<dots> \<le> \<bar>real_of_int a\<bar> * \<bar>dxy\<bar>"
      using mult_right_mono[OF a1, of "\<bar>dxy\<bar>"] by simp
    finally have "\<bar>dxy\<bar> \<le> \<bar>real_of_int a\<bar> * \<bar>dxy\<bar> / \<bar>cs\<bar>"
      using assms(2) by (simp add: pos_le_divide_eq)
    also have "\<dots> = \<bar>of_int a * dxy / cs\<bar>" by (simp add: abs_mult)
    also have "\<dots> = sqrt ((of_int a * dxy / cs)\<^sup>2)" by simp
    also have "\<dots> \<le> sqrt ((of_int a * dxy / cs)\<^sup>2 + (of_int b * dxy)\<^sup>2)"
      by (rule real_sqrt_le_mono) simp
    finally show ?thesis .
  next
    assume "b \<noteq> 0"
    then have b1: "1 \<le> \<bar>real_of_int b\<bar>" by linarith
    have "\<bar>dxy\<bar> \<le> \<bar>real_of_int b\<bar> * \<bar>dxy\<bar>"
      using mult_right_mono[OF b1, of "\<bar>dxy\<bar>"] by simp
    also have "\<dots> = sqrt ((of_int b * dxy)\<^sup>2)" by (simp add: abs_mult)
    also have "\<dots> \<le> sqrt ((of_int a * dxy / cs)\<^sup>2 + (of_int b * dxy)\<^sup>2)"
      by (rule real_sqrt_le_mono) simp
    finally show ?thesis .
  qed
qed

lemma sweep_pixel_value:
  assumes "sweep_pixel I Rmin dR dxy cs rmax irow jcol = Inr v"
    and "0 < dR" "Rmin \<le> dxy" "\<bar>cs\<bar> \<le> 1" "irow \<noteq> rmax \<or> jcol \<noteq> rmax"
  shows "v = profile_interpolant I Rmin dR
               (sqrt ((of_int (rmax - jcol) * dxy / cs)\<^sup>2 + (of_int (rmax - irow) * dxy)\<^sup>2))"
proof -
  define rr where "rr = sqrt ((of_int (rmax - jcol) * dxy / cs)\<^sup>2 + (of_int (rmax - irow) * dxy)\<^sup>2)"
  define iR where "iR = \<lfloor>(rr - Rmin) / dR\<rfloor>"
  have cs: "cs \<noteq> 0"
    using assms(1) by (auto simp: sweep_pixel_def split: if_splits)
  have nz: "\<not> (cs = 0 \<or> dR = 0)" using cs assms(2) by simp
  have eq: "(if iR \<ge> int (length I) - 1 then Inr 0
             else bindE (py_get I iR) (\<lambda>a.
                  bindE (py_get I (iR + 1)) (\<lambda>b.
                    Inr (a + (rr - of_int iR * dR - Rmin) * (b - a) / dR)))) = Inr v"
    unfolding iR_def rr_def
    using assms(1) nz unfolding sweep_pixel_def Let_def by (simp only: if_False)
  have pi: "profile_interpolant I Rmin dR rr =
      (if iR \<ge> int (length I) - 1 then 0
       else I ! nat iR + (rr - of_int iR * dR - Rmin) * (I ! nat (iR + 1) - I ! nat iR) / dR)"
    unfolding profile_interpolant_def Let_def iR_def ..
  have "\<bar>dxy\<bar> \<le> rr"
    unfolding rr_def using assms(5) by (intro radius_ge[OF _ cs assms(4)]) auto
  then have "Rmin \<le> rr" using assms(3) by linarith
  then have "0 \<le> (rr - Rmin) / dR" using assms(2) by simp
  then have iR0: "0 \<le> iR" unfolding iR_def by simp
  have "v = profile_interpolant I Rmin dR rr"
  proof (cases "iR \<ge> int (length I) - 1")
    case True
    then show ?thesis using eq pi by simp
  next
    case False
    then have "py_get I iR = Inr (I ! nat iR)" "py_get I (iR + 1) = Inr (I ! nat (iR + 1))"
      using iR0 by (simp_all add: py_get_ok)
    then show ?thesis using eq pi False by simp
  qed
  then show ?thesis unfolding rr_def .
qed

lemma py_get_Inr_nonneg: "0 \<le> i \<Longrightarrow> py_get xs i = Inr v \<Longrightarrow> nat i < length xs \<and> v = xs ! nat i"
  by (auto simp: py_get_def py_index_def split: if_splits)

lemma g_sweep_prototype_Inr:
  assumes "g_sweep_prototype I Rmin dR nrow ncol dxy inc = Inr img"
  shows "\<exists>img1. Rmin \<le> dxy \<and> dxy \<noteq> 0 \<and>
    sweep_rows (sweep_pixel I Rmin dR dxy (cos (inc / 180 * pi)) (sweep_rmax I Rmin dR nrow dxy))
       (int (nrow div 2) - sweep_rmax I Rmin dR nrow dxy)
       (int (ncol div 2) - sweep_rmax I Rmin dR nrow dxy)
       (zeros nrow ncol)
       [0..sweep_rmax I Rmin dR nrow dxy * 2 - 1] [0..sweep_rmax I Rmin dR nrow dxy * 2 - 1] = Inr img1 \<and>
    (Rmin = 0 \<longrightarrow> img = img1) \<and>
    (Rmin \<noteq> 0 \<longrightarrow> dR \<noteq> 0 \<and> 2 \<le> length I \<and>
       img_set img1 (int (nrow div 2)) (int (ncol div 2)) (center_value I Rmin dR) = Inr img)"
proof -
  have a: "Rmin \<le> dxy" "dxy \<noteq> 0"
    using assms by (auto simp: g_sweep_prototype_def Let_def split: if_splits)
  define rmax where "rmax = sweep_rmax I Rmin dR nrow dxy"
  have rm: "min \<lceil>(Rmin + of_int (int (length I)) * dR) / dxy\<rceil> (int (nrow div 2)) = rmax"
    by (simp add: rmax_def sweep_rmax_def)
  have "bindE (sweep_rows (sweep_pixel I Rmin dR dxy (cos (inc / 180 * pi)) rmax)
          (int (nrow div 2) - rmax) (int (ncol div 2) - rmax) (zeros nrow ncol)
          [0..rmax * 2 - 1] [0..rmax * 2 - 1])
        (\<lambda>img. if Rmin \<noteq> 0 then
                 bindE (py_get I 0) (\<lambda>i0. bindE (py_get I 1) (\<lambda>i1.
                   if dR = 0 then Inl ZeroDivisionError
                   else img_set img (int (nrow div 2)) (int (ncol div 2)) (i0 + Rmin * (i0 - i1) / dR)))
               else Inr img) = Inr img"
    using assms a unfolding g_sweep_prototype_def Let_def rm
    by (simp only: simp_thms if_False if_True)
  then obtain img1 where r: "sweep_rows (sweep_pixel I Rmin dR dxy (cos (inc / 180 * pi)) rmax)
          (int (nrow div 2) - rmax) (int (ncol div 2) - rmax) (zeros nrow ncol)
          [0..rmax * 2 - 1] [0..rmax * 2 - 1] = Inr img1"
    and c: "(if Rmin \<noteq> 0 then
                 bindE (py_get I 0) (\<lambda>i0. bindE (py_get I 1) (\<lambda>i1.
                   if dR = 0 then Inl ZeroDivisionError
                   else img_set img1 (int (nrow div 2)) (int (ncol div 2)) (i0 + Rmin * (i0 - i1) / dR)))
               else Inr img1) = Inr img"
    unfolding bindE_eq_Inr by blast
  have c0: "Rmin = 0 \<Longrightarrow> img = img1" using c by simp
  have c1: "dR \<noteq> 0 \<and> 2 \<le> length I \<and>
       img_set img1 (int (nrow div 2)) (int (ncol div 2)) (center_value I Rmin dR) = Inr img"
    if "Rmin \<noteq> 0"
  proof -
    from c that obtain i0 i1 where g: "py_get I 0 = Inr i0" "py_get I 1 = Inr i1"
      and d: "(if dR = 0 then Inl ZeroDivisionError
           else img_set img1 (int (nrow div 2)) (int (ncol div 2)) (i0 + Rmin * (i0 - i1) / dR)) = Inr img"
      by (auto simp: bindE_eq_Inr)
    have "i0 = I ! 0" using py_get_Inr_nonneg[OF _ g(1)] by simp
    moreover have "1 < length I \<and> i1 = I ! 1" using py_get_Inr_nonneg[OF _ g(2)] by simp
    ultimately show ?thesis using d by (auto simp: center_value_def split: if_splits)
  qed
  show ?thesis
    using a r[unfolded rmax_def] c0 c1 by blast
qed

lemma center_index: "0 < n \<Longrightarrow> py_index n (int (n div 2)) = Inr (n div 2)"
  by (simp add: py_index_def)

lemma g_sweep_prototype_pixel:
  assumes "g_sweep_prototype I Rmin dR nrow ncol dxy inc = Inr img"
    and "0 < dR"
    and "int (nrow div 2) - sweep_rmax I Rmin dR nrow dxy \<le> int r"
    and "int r < int (nrow div 2) + sweep_rmax I Rmin dR nrow dxy"
    and "int (ncol div 2) - sweep_rmax I Rmin dR nrow dxy \<le> int c"
    and "int c < int (ncol div 2) + sweep_rmax I Rmin dR nrow dxy"
    and "r \<noteq> nrow div 2 \<or> c \<noteq> ncol div 2"
  shows "r < nrow \<and> c < ncol \<and>
         img ! r ! c = profile_interpolant I Rmin dR
           (deproject (of_int (int (ncol div 2) - int c) * dxy)
                      (of_int (int (nrow div 2) - int r) * dxy) inc)"
proof -
  define rmax where "rmax = sweep_rmax I Rmin dR nrow dxy"
  define ro where "ro = int (nrow div 2) - rmax"
  define co where "co = int (ncol div 2) - rmax"
  define cs where "cs = cos (inc / 180 * pi)"
  obtain img1 where g0: "Rmin \<le> dxy" "dxy \<noteq> 0"
    "sweep_rows (sweep_pixel I Rmin dR dxy (cos (inc / 180 * pi)) (sweep_rmax I Rmin dR nrow dxy))
       (int (nrow div 2) - sweep_rmax I Rmin dR nrow dxy)
       (int (ncol div 2) - sweep_rmax I Rmin dR nrow dxy)
       (zeros nrow ncol)
       [0..sweep_rmax I Rmin dR nrow dxy * 2 - 1] [0..sweep_rmax I Rmin dR nrow dxy * 2 - 1] = Inr img1"
    "Rmin = 0 \<longrightarrow> img = img1"
    "Rmin \<noteq> 0 \<longrightarrow> dR \<noteq> 0 \<and> 2 \<le> length I \<and>
       img_set img1 (int (nrow div 2)) (int (ncol div 2)) (center_value I Rmin dR) = Inr img"
    using g_sweep_prototype_Inr[OF assms(1)] by blast
  have g3: "sweep_rows (sweep_pixel I Rmin dR dxy cs rmax) ro co (zeros nrow ncol)
       [0..rmax * 2 - 1] [0..rmax * 2 - 1] = Inr img1"
    unfolding rmax_def ro_def co_def cs_def by (rule g0(3))
  note g = g0(1,2) g3 g0(4,5)
  have ro0: "0 \<le> ro" unfolding ro_def rmax_def sweep_rmax_def by simp
  define i where "i = int r - ro"
  define j where "j = int c - co"
  have mem: "i \<in> set [0..rmax * 2 - 1]" "j \<in> set [0..rmax * 2 - 1]"
    using assms(3-6) unfolding i_def j_def ro_def co_def rmax_def by auto
  have nonneg: "\<forall>i\<in>set [0..rmax * 2 - 1]. 0 \<le> i + ro" using ro0 by auto
  have jc: "0 \<le> j + co" unfolding j_def by simp
  have v: "nat (i + ro) < nrow \<and> nat (j + co) < ncol \<and>
         sweep_pixel I Rmin dR dxy cs rmax i j = Inr (img1 ! nat (i + ro) ! nat (j + co))"
    by (rule sweep_rows_value[OF g(3) has_shape_zeros nonneg sorted_wrt_upto sorted_wrt_upto mem jc])
  have rc: "nat (i + ro) = r" "nat (j + co) = c" unfolding i_def j_def by simp_all
  have rl: "r < nrow" "c < ncol" using v rc by simp_all
  have px: "sweep_pixel I Rmin dR dxy cs rmax i j = Inr (img1 ! r ! c)" using v rc by simp
  have notc: "i \<noteq> rmax \<or> j \<noteq> rmax"
    using assms(7) unfolding i_def j_def ro_def co_def by auto
  have "\<bar>cs\<bar> \<le> 1" unfolding cs_def by (rule abs_cos_le_one)
  from sweep_pixel_value[OF px assms(2) g(1) this notc]
  have val: "img1 ! r ! c = profile_interpolant I Rmin dR
      (sqrt ((of_int (rmax - j) * dxy / cs)\<^sup>2 + (of_int (rmax - i) * dxy)\<^sup>2))" .
  have ij: "rmax - j = int (ncol div 2) - int c" "rmax - i = int (nrow div 2) - int r"
    unfolding i_def j_def ro_def co_def by simp_all
  have val': "img1 ! r ! c = profile_interpolant I Rmin dR
           (deproject (of_int (int (ncol div 2) - int c) * dxy)
                      (of_int (int (nrow div 2) - int r) * dxy) inc)"
    using val unfolding ij deproject_def cs_def .
  have sh1: "has_shape img1 nrow ncol"
    by (rule sweep_rows_shape[OF g(3) has_shape_zeros])
  have "img ! r ! c = img1 ! r ! c"
  proof (cases "Rmin = 0")
    case True
    then show ?thesis using g(4) by simp
  next
    case False
    then have s: "img_set img1 (int (nrow div 2)) (int (ncol div 2)) (center_value I Rmin dR) = Inr img"
      using g(5) by simp
    have "0 < nrow" "0 < ncol" using rl by auto
    then have "py_index nrow (int (nrow div 2)) = Inr (nrow div 2)"
      "py_index ncol (int (ncol div 2)) = Inr (ncol div 2)"
      by (simp_all add: center_index)
    then show ?thesis
      using img_set_nth[OF s sh1 rl] assms(7) by auto
  qed
  with val' rl show ?thesis by simp
qed

lemma py_get_some:
  assumes "- int (length xs) \<le> i" "i < int (length xs)"
  shows "\<exists>v. py_get xs i = Inr v"
  using assms by (simp add: py_get_def py_index_def)

lemma img_set_ok:
  assumes "has_shape f nrow ncol" "0 \<le> r" "r < int nrow" "0 \<le> c" "c < int ncol"
  shows "img_set f r c v = Inr (f[nat r := (f ! nat r)[nat c := v]])"
proof -
  have "length f = nrow" using assms(1) by (simp add: has_shape_def)
  moreover have "length (f ! nat r) = ncol"
    using assms(1-3) by (intro has_shape_row) auto
  ultimately show ?thesis
    using assms(2-5) by (simp add: img_set_def py_index_ok)
qed

lemma sweep_pixel_ok:
  assumes "cs \<noteq> 0" "0 < dR" "Rmin \<le> real (length I) * dR"
  shows "\<exists>v. sweep_pixel I Rmin dR dxy cs rmax irow jcol = Inr v"
proof -
  define rr where "rr = sqrt ((of_int (rmax - jcol) * dxy / cs)\<^sup>2 + (of_int (rmax - irow) * dxy)\<^sup>2)"
  define iR where "iR = \<lfloor>(rr - Rmin) / dR\<rfloor>"
  have nz: "\<not> (cs = 0 \<or> dR = 0)" using assms(1,2) by simp
  have eq: "sweep_pixel I Rmin dR dxy cs rmax irow jcol =
       (if iR \<ge> int (length I) - 1 then Inr 0
             else bindE (py_get I iR) (\<lambda>a.
                  bindE (py_get I (iR + 1)) (\<lambda>b.
                    Inr (a + (rr - of_int iR * dR - Rmin) * (b - a) / dR))))"
    unfolding iR_def rr_def sweep_pixel_def Let_def using nz by (simp only: if_False)
  have "0 \<le> rr" unfolding rr_def by simp
  then have "- real (length I) * dR \<le> rr - Rmin" using assms(3) by simp
  then have "- real (length I) \<le> (rr - Rmin) / dR"
    using assms(2) by (simp add: pos_le_divide_eq)
  then have "of_int (- int (length I)) \<le> (rr - Rmin) / dR" by simp
  then have lo: "- int (length I) \<le> iR" unfolding iR_def by (simp only: le_floor_iff)
  show ?thesis
  proof (cases "iR \<ge> int (length I) - 1")
    case True
    then show ?thesis using eq by simp
  next
    case False
    then obtain a b where "py_get I iR = Inr a" "py_get I (iR + 1) = Inr b"
      using py_get_some[of I iR] py_get_some[of I "iR + 1"] lo by auto
    then show ?thesis using eq False by simp
  qed
qed

lemma sweep_cols_ok:
  assumes "has_shape img nrow ncol" "0 \<le> irow + ro" "irow + ro < int nrow"
    and "\<forall>j\<in>set js. 0 \<le> j + co \<and> j + co < int ncol \<and> (\<exists>v. px irow j = Inr v)"
  shows "\<exists>img'. sweep_cols px ro co img irow js = Inr img'"
  using assms(1,4)
proof (induction js arbitrary: img)
  case Nil
  then show ?case by simp
next
  case (Cons j js)
  obtain v where v: "px irow j = Inr v" using Cons.prems(2) by auto
  have jb: "0 \<le> j + co" "j + co < int ncol" using Cons.prems(2) by auto
  define img1 where "img1 = img[nat (irow + ro) := (img ! nat (irow + ro))[nat (j + co) := v]]"
  have s: "img_set img (irow + ro) (j + co) v = Inr img1"
    unfolding img1_def by (rule img_set_ok[OF Cons.prems(1) assms(2,3) jb])
  have sh: "has_shape img1 nrow ncol" by (rule img_set_shape[OF s Cons.prems(1)])
  have "\<exists>img'. sweep_cols px ro co img1 irow js = Inr img'"
    using Cons.IH[OF sh] Cons.prems(2) by simp
  then show ?case using v s by simp
qed

lemma sweep_rows_ok:
  assumes "has_shape img nrow ncol"
    and "\<forall>i\<in>set is. 0 \<le> i + ro \<and> i + ro < int nrow"
    and "\<forall>i\<in>set is. \<forall>j\<in>set js. 0 \<le> j + co \<and> j + co < int ncol \<and> (\<exists>v. px i j = Inr v)"
  shows "\<exists>img'. sweep_rows px ro co img is js = Inr img'"
  using assms
proof (induction "is" arbitrary: img)
  case Nil
  then show ?case by simp
next
  case (Cons i "is")
  have "\<exists>img1. sweep_cols px ro co img i js = Inr img1"
    using Cons.prems by (intro sweep_cols_ok[of img nrow ncol]) auto
  then obtain img1 where c: "sweep_cols px ro co img i js = Inr img1" by blast
  have sh: "has_shape img1 nrow ncol" by (rule sweep_cols_shape[OF c Cons.prems(1)])
  have "\<exists>img'. sweep_rows px ro co img1 is js = Inr img'"
    using Cons.IH[OF sh] Cons.prems(2,3) by simp
  then show ?case using c by simp
qed

lemma g_sweep_prototype_returns:
  assumes "Rmin \<le> dxy" "dxy \<noteq> 0" "0 < dR" "cos (inc / 180 * pi) \<noteq> 0"
    and "2 \<le> length I" "Rmin \<le> real (length I) * dR" "0 < nrow" "nrow \<le> ncol"
  shows "\<exists>img. g_sweep_prototype I Rmin dR nrow ncol dxy inc = Inr img"
proof -
  define rmax where "rmax = sweep_rmax I Rmin dR nrow dxy"
  define ro where "ro = int (nrow div 2) - rmax"
  define co where "co = int (ncol div 2) - rmax"
  define cs where "cs = cos (inc / 180 * pi)"
  have rm: "min \<lceil>(Rmin + of_int (int (length I)) * dR) / dxy\<rceil> (int (nrow div 2)) = rmax"
    by (simp add: rmax_def sweep_rmax_def)
  have rle: "rmax \<le> int (nrow div 2)" unfolding rmax_def sweep_rmax_def by simp
  have cle: "int (nrow div 2) \<le> int (ncol div 2)" using assms(8) by (simp add: div_le_mono)
  have rows: "\<forall>i\<in>set [0..rmax * 2 - 1]. 0 \<le> i + ro \<and> i + ro < int nrow"
    using rle unfolding ro_def by auto
  have cols: "\<forall>i\<in>set [0..rmax * 2 - 1]. \<forall>j\<in>set [0..rmax * 2 - 1].
      0 \<le> j + co \<and> j + co < int ncol \<and> (\<exists>v. sweep_pixel I Rmin dR dxy cs rmax i j = Inr v)"
    using rle cle sweep_pixel_ok[OF assms(4)[folded cs_def] assms(3,6)] unfolding co_def by auto
  obtain img1 where r: "sweep_rows (sweep_pixel I Rmin dR dxy cs rmax) ro co (zeros nrow ncol)
      [0..rmax * 2 - 1] [0..rmax * 2 - 1] = Inr img1"
    using sweep_rows_ok[OF has_shape_zeros rows cols] by blast
  have sh1: "has_shape img1 nrow ncol" by (rule sweep_rows_shape[OF r has_shape_zeros])
  have g0: "py_get I 0 = Inr (I ! 0)" "py_get I 1 = Inr (I ! 1)"
    using assms(5) by (auto simp: py_get_def py_index_def)
  have cen: "img_set img1 (int (nrow div 2)) (int (ncol div 2)) (I ! 0 + Rmin * (I ! 0 - I ! 1) / dR)
     = Inr (img1[nat (int (nrow div 2)) := (img1 ! nat (int (nrow div 2)))
              [nat (int (ncol div 2)) := I ! 0 + Rmin * (I ! 0 - I ! 1) / dR]])"
    using assms(7,8) by (intro img_set_ok[OF sh1]) auto
  have "g_sweep_prototype I Rmin dR nrow ncol dxy inc =
     bindE (sweep_rows (sweep_pixel I Rmin dR dxy cs rmax) ro co (zeros nrow ncol)
          [0..rmax * 2 - 1] [0..rmax * 2 - 1])
        (\<lambda>img. if Rmin \<noteq> 0 then
                 bindE (py_get I 0) (\<lambda>i0. bindE (py_get I 1) (\<lambda>i1.
                   if dR = 0 then Inl ZeroDivisionError
                   else img_set img (int (nrow div 2)) (int (ncol div 2)) (i0 + Rmin * (i0 - i1) / dR)))
               else Inr img)"
    using assms(1,2) unfolding g_sweep_prototype_def Let_def rm ro_def co_def cs_def
    by (simp only: simp_thms if_False if_True)
  then show ?thesis
    using r g0 cen assms(3) by (cases "Rmin = 0") simp_all
qed

section \<open>The vectorized sweep at the center\<close>

lemma length_linspace: "length (linspace a b n) = n"
  by (simp add: linspace_def)

lemma interp_linear_center:
  assumes "2 \<le> length I" "0 < dR" "- dR \<le> Rmin"
  shows "interp_linear (linspace Rmin (Rmin + dR * (real (length I) - 1)) (length I)) I 0
         = center_value I Rmin dR"
proof -
  define n where "n = length I"
  define grid where "grid = map (\<lambda>i. Rmin + real i * dR) [0..<n]"
  have g: "linspace Rmin (Rmin + dR * (real (length I) - 1)) (length I) = grid"
    unfolding grid_def n_def by (rule linspace_grid)
  have n2: "2 \<le> n" using assms(1) by (simp add: n_def)
  then have "[0..<n] = 0 # 1 # [2..<n]"
    by (simp add: upt_conv_Cons numeral_2_eq_2)
  then have gc: "grid = Rmin # (Rmin + dR) # map (\<lambda>i. Rmin + real i * dR) [2..<n]"
    by (simp add: grid_def)
  have ss: "searchsorted grid 0 \<le> 1"
    using assms(3) by (simp add: searchsorted_def gc)
  have lg: "length grid = n" by (simp add: grid_def)
  have idx: "max 1 (min (searchsorted grid 0) (length grid - 1)) = 1"
    using ss n2 lg by simp
  have "interp_linear grid I 0 = (I ! 1 - I ! 0) / (grid ! 1 - grid ! 0) * (0 - grid ! 0) + I ! 0"
    unfolding interp_linear_def Let_def idx by simp
  also have "\<dots> = (I ! 1 - I ! 0) / dR * (0 - Rmin) + I ! 0"
    by (simp add: gc)
  also have "\<dots> = center_value I Rmin dR"
    using assms(2) by (simp add: center_value_def field_simps)
  finally show ?thesis unfolding g .
qed

lemma sweep_ref_center:
  assumes "0 < nrow" "0 < ncol" "cos (inc / 180 * pi) \<noteq> 0" "2 \<le> length I" "0 < dR"
    and "- dR \<le> Rmin"
  shows "\<exists>B. sweep_ref I Rmin dR nrow ncol dxy inc Dx Dy = Inr B \<and>
             B ! (nrow div 2) ! (ncol div 2) = center_value I Rmin dR"
proof -
  define grid where "grid = linspace Rmin (Rmin + dR * (real (length I) - 1)) (length I)"
  define xs where "xs = map (\<lambda>t. (t - Dx * dxy) / cos (inc / 180 * pi))
      (map (\<lambda>t. t * dxy * real ncol) (linspace (1/2) (- (1/2) + 1 / real ncol) ncol))"
  define ys where "ys = map (\<lambda>t. t - Dy * dxy)
      (map (\<lambda>t. t * dxy * real nrow) (linspace (1/2) (- (1/2) + 1 / real nrow) nrow))"
  define intensmap where "intensmap =
      map (map (interp1d_fill grid I 0)) (map (\<lambda>yyy. map (\<lambda>xxx. sqrt (xxx\<^sup>2 + yyy\<^sup>2)) xs) ys)"
  have c: "\<not> (ncol = 0 \<or> nrow = 0)" "\<not> length I < 2" "dR \<noteq> 0"
    using assms by auto
  have eq: "sweep_ref I Rmin dR nrow ncol dxy inc Dx Dy =
      img_set intensmap (int (nrow div 2)) (int (ncol div 2)) (interp_linear grid I 0)"
    unfolding sweep_ref_def Let_def interp1d_extrapolate_def intensmap_def xs_def ys_def grid_def
    using c assms(3) by (simp only: if_False)
  have sh: "has_shape intensmap nrow ncol"
    by (simp add: has_shape_def list_all_length intensmap_def xs_def ys_def length_linspace)
  have "img_set intensmap (int (nrow div 2)) (int (ncol div 2)) (interp_linear grid I 0) =
     Inr (intensmap[nat (int (nrow div 2)) := (intensmap ! nat (int (nrow div 2)))
        [nat (int (ncol div 2)) := interp_linear grid I 0]])"
    using assms(1,2) by (intro img_set_ok[OF sh]) auto
  moreover have "length intensmap = nrow" "length (intensmap ! (nrow div 2)) = ncol"
    using sh has_shape_row[OF sh, of "nrow div 2"] assms(1) by (simp_all add: has_shape_def)
  ultimately show ?thesis
    using eq assms(1,2) interp_linear_center[OF assms(4,5,6)] by (simp add: grid_def)
qed

lemma g_sweep_prototype_center:
  assumes "g_sweep_prototype I Rmin dR nrow ncol dxy inc = Inr A" "Rmin \<noteq> 0"
  shows "A ! (nrow div 2) ! (ncol div 2) = center_value I Rmin dR"
proof -
  obtain img1 where g: 
    "sweep_rows (sweep_pixel I Rmin dR dxy (cos (inc / 180 * pi)) (sweep_rmax I Rmin dR nrow dxy))
       (int (nrow div 2) - sweep_rmax I Rmin dR nrow dxy)
       (int (ncol div 2) - sweep_rmax I Rmin dR nrow dxy)
       (zeros nrow ncol)
       [0..sweep_rmax I Rmin dR nrow dxy * 2 - 1] [0..sweep_rmax I Rmin dR nrow dxy * 2 - 1] = Inr img1"
    "img_set img1 (int (nrow div 2)) (int (ncol div 2)) (center_value I Rmin dR) = Inr A"
    using g_sweep_prototype_Inr[OF assms(1)] assms(2) by blast
  have sh1: "has_shape img1 nrow ncol" by (rule sweep_rows_shape[OF g(1) has_shape_zeros])
  obtain r' c' where *: "py_index (length img1) (int (nrow div 2)) = Inr r'"
      "py_index (length (img1 ! r')) (int (ncol div 2)) = Inr c'"
    using g(2) by (rule img_set_Inr)
  have l: "length img1 = nrow" using sh1 by (simp add: has_shape_def)
  have r': "r' = nrow div 2" "nrow div 2 < nrow"
    using py_index_nonneg[OF _ *(1)] l by auto
  have lr: "length (img1 ! r') = ncol" using has_shape_row[OF sh1] r' by simp
  have c': "c' = ncol div 2" "ncol div 2 < ncol"
    using py_index_nonneg[OF _ *(2)] lr by auto
  show ?thesis
    using img_set_nth[OF g(2) sh1 r'(2) c'(2)] * l lr r' c' by simp
qed

section \<open>Agreement of the two sweeps\<close>

text \<open>
  On an ascending grid \<open>Rmin + i\<cdot>dR\<close> the zero-filled interpolation of \<^verbatim>\<open>sweep_ref\<close> and
  the truncated interpolant of the prototype coincide at every radius from \<open>Rmin\<close> on,
  except at the last grid point \<open>Rmin + (n-1)\<cdot>dR\<close> itself: there the interpolation
  returns \<open>I[n-1]\<close> and the prototype \<open>0\<close>. On an even square image without offsets the
  two sweeps therefore return the same pixels, but for the pixels that lie on the
  truncation radius exactly.
\<close>

lemma takeWhile_upt_less: "takeWhile (\<lambda>i. i < m) [0..<n] = [0..<min m n]"
proof (cases "n \<le> m")
  case True
  then have "takeWhile (\<lambda>i. i < m) [0..<n] = [0..<n]"
    by (auto simp: takeWhile_eq_all_conv)
  then show ?thesis using True by (simp add: min_def)
next
  case False
  then have mn: "m < n" by simp
  then have "[0..<n] = [0..<m] @ m # [Suc m..<n]"
    by (metis le_add1 less_imp_add_positive upt_add_eq_append upt_conv_Cons plus_nat.add_0 zero_le)
  then have "takeWhile (\<lambda>i. i < m) [0..<n] = takeWhile (\<lambda>i. i < m) [0..<m]"
    by (simp add: takeWhile_tail)
  also have "\<dots> = [0..<m]" by (auto simp: takeWhile_eq_all_conv)
  finally show ?thesis using mn by (simp add: min_def)
qed

lemma searchsorted_grid:
  assumes "0 < dR"
  shows "searchsorted (map (\<lambda>i. Rmin + real i * dR) [0..<n]) \<rho> = min (nat \<lceil>(\<rho> - Rmin) / dR\<rceil>) n"
proof -
  have "(Rmin + real i * dR < \<rho>) = (i < nat \<lceil>(\<rho> - Rmin) / dR\<rceil>)" for i
  proof -
    have "(Rmin + real i * dR < \<rho>) = (real i < (\<rho> - Rmin) / dR)"
      using assms by (simp add: pos_less_divide_eq algebra_simps)
    also have "\<dots> = (int i < \<lceil>(\<rho> - Rmin) / dR\<rceil>)"
      by (simp add: less_ceiling_iff)
    also have "\<dots> = (i < nat \<lceil>(\<rho> - Rmin) / dR\<rceil>)" by linarith
    finally show ?thesis .
  qed
  then have "takeWhile (\<lambda>x. x < \<rho>) (map (\<lambda>i. Rmin + real i * dR) [0..<n])
      = map (\<lambda>i. Rmin + real i * dR) (takeWhile (\<lambda>i. i < nat \<lceil>(\<rho> - Rmin) / dR\<rceil>) [0..<n])"
    by (simp add: takeWhile_map comp_def)
  then show ?thesis
    by (simp add: searchsorted_def takeWhile_upt_less)
qed

lemma grid_nth:
  "i < n \<Longrightarrow> map (\<lambda>i. Rmin + real i * dR) [0..<n] ! i = Rmin + real i * dR"
  by simp

lemma interp_linear_grid:
  assumes "2 \<le> n" "0 < dR" "Rmin \<le> \<rho>" "\<rho> \<le> Rmin + real (n - 1) * dR"
    and that: "length I = n"
  shows "interp_linear (map (\<lambda>i. Rmin + real i * dR) [0..<n]) I \<rho> =
     (if \<rho> = Rmin + real (n - 1) * dR then I ! (n - 1) else profile_interpolant I Rmin dR \<rho>)"
proof -
  define grid where "grid = map (\<lambda>i. Rmin + real i * dR) [0..<n]"
  define t where "t = (\<rho> - Rmin) / dR"
  define k where "k = nat \<lfloor>t\<rfloor>"
  have t0: "0 \<le> t" using assms(2,3) by (simp add: t_def)
  have tn: "t \<le> real (n - 1)" using assms(2,4) by (simp add: t_def pos_divide_le_eq algebra_simps)
  have rho: "\<rho> = Rmin + t * dR" using assms(2) by (simp add: t_def)
  have fl: "\<lfloor>t\<rfloor> = int k" using t0 by (simp add: k_def)
  have kt: "real k \<le> t" "t < real k + 1"
    using fl by linarith+
  have ss: "searchsorted grid \<rho> = min (nat \<lceil>t\<rceil>) n"
    unfolding grid_def t_def by (rule searchsorted_grid[OF assms(2)])
  have lg: "length grid = n" by (simp add: grid_def)
  show ?thesis
  proof (cases "t = real k")
    case True
    then have ce: "nat \<lceil>t\<rceil> = k" by simp
    have kn: "k \<le> n - 1" using tn True by simp
    show ?thesis
    proof (cases "k = 0")
      case k0: True
      then have r0: "\<rho> = Rmin" using rho True by simp
      have idx: "max 1 (min (searchsorted grid \<rho>) (length grid - 1)) = 1"
        using ss ce k0 lg assms(1) by simp
      have "interp_linear grid I \<rho> = I ! 0"
        unfolding interp_linear_def Let_def idx using assms(1) by (simp add: grid_def r0)
      moreover have "profile_interpolant I Rmin dR \<rho> = I ! 0"
        using that assms(1,2) by (simp add: profile_interpolant_def r0)
      moreover have "\<rho> \<noteq> Rmin + real (n - 1) * dR" using r0 assms(1,2) by simp
      ultimately show ?thesis by (simp add: grid_def)
    next
      case k1: False
      then have idx: "max 1 (min (searchsorted grid \<rho>) (length grid - 1)) = k"
        using ss ce lg kn by simp
      have km: "k - 1 < n" "k < n" using kn assms(1) by simp_all
      have gk: "grid ! k = \<rho>" "grid ! (k - 1) = \<rho> - dR"
        using km k1 rho True by (simp_all add: grid_def of_nat_diff algebra_simps)
      have "interp_linear grid I \<rho> = (I ! k - I ! (k - 1)) / dR * dR + I ! (k - 1)"
        unfolding interp_linear_def Let_def idx gk by simp
      then have il: "interp_linear grid I \<rho> = I ! k" using assms(2) by simp
      show ?thesis
      proof (cases "k = n - 1")
        case True
        then have "\<rho> = Rmin + real (n - 1) * dR" using rho \<open>t = real k\<close> by simp
        then show ?thesis using il True by (simp add: grid_def)
      next
        case False
        then have "k < n - 1" using kn by simp
        then have ne: "\<rho> \<noteq> Rmin + real (n - 1) * dR"
          using rho \<open>t = real k\<close> assms(2) by simp
        have "\<not> int (length I) - 1 \<le> \<lfloor>(\<rho> - Rmin) / dR\<rfloor>"
          using fl \<open>k < n - 1\<close> that by (simp add: t_def[symmetric])
        then have "profile_interpolant I Rmin dR \<rho> = I ! k"
          using fl that rho True assms(2)
          by (simp add: profile_interpolant_def Let_def t_def[symmetric])
        then show ?thesis using il ne by (simp add: grid_def)
      qed
    qed
  next
    case False
    then have lt: "real k < t" using kt by simp
    then have ce: "nat \<lceil>t\<rceil> = Suc k"
      using kt by (simp add: ceiling_eq_iff nat_eq_iff ceiling_unique)
    have "real k < real (n - 1)" using lt tn by simp
    then have kn: "k < n - 1" by simp
    have idx: "max 1 (min (searchsorted grid \<rho>) (length grid - 1)) = Suc k"
      using ss ce lg kn by simp
    have km: "k < n" "Suc k < n" using kn by simp_all
    have gk: "grid ! k = Rmin + real k * dR" "grid ! Suc k = Rmin + real k * dR + dR"
      using km by (simp_all add: grid_def algebra_simps)
    have il: "interp_linear grid I \<rho> =
        (I ! Suc k - I ! k) / dR * (\<rho> - (Rmin + real k * dR)) + I ! k"
      unfolding interp_linear_def Let_def idx by (simp add: gk)
    have ne: "\<rho> \<noteq> Rmin + real (n - 1) * dR"
      using rho \<open>real k < real (n - 1)\<close> kt assms(2) by auto
    have "\<not> int (length I) - 1 \<le> \<lfloor>(\<rho> - Rmin) / dR\<rfloor>"
      using fl kn that by (simp add: t_def[symmetric])
    then have "profile_interpolant I Rmin dR \<rho> =
        I ! k + (\<rho> - real k * dR - Rmin) * (I ! Suc k - I ! k) / dR"
      using fl that by (simp add: profile_interpolant_def Let_def t_def[symmetric] nat_add_distrib)
    then show ?thesis using il ne by (simp add: grid_def algebra_simps)
  qed
qed

lemma profile_interpolant_beyond:
  assumes "0 < dR" "Rmin + real (length I - 1) * dR \<le> \<rho>" "1 \<le> length I"
  shows "profile_interpolant I Rmin dR \<rho> = 0"
proof -
  have "real (length I - 1) \<le> (\<rho> - Rmin) / dR"
    using assms(1,2) by (simp add: pos_le_divide_eq algebra_simps)
  then have "int (length I - 1) \<le> \<lfloor>(\<rho> - Rmin) / dR\<rfloor>"
    by (simp add: le_floor_iff)
  then have "int (length I) - 1 \<le> \<lfloor>(\<rho> - Rmin) / dR\<rfloor>"
    using assms(3) by (simp add: of_nat_diff)
  then show ?thesis by (simp add: profile_interpolant_def)
qed

lemma interp1d_fill_grid:
  assumes "2 \<le> length I" "0 < dR" "Rmin \<le> \<rho>"
  shows "interp1d_fill (linspace Rmin (Rmin + dR * (real (length I) - 1)) (length I)) I 0 \<rho> =
     (if \<rho> = Rmin + real (length I - 1) * dR then I ! (length I - 1)
      else profile_interpolant I Rmin dR \<rho>)"
proof -
  define n where "n = length I"
  define grid where "grid = map (\<lambda>i. Rmin + real i * dR) [0..<n]"
  have g: "linspace Rmin (Rmin + dR * (real (length I) - 1)) (length I) = grid"
    unfolding grid_def n_def by (rule linspace_grid)
  have n2: "2 \<le> n" using assms(1) by (simp add: n_def)
  then have ne: "[0..<n] \<noteq> []" by simp
  have h: "hd grid = Rmin" using ne n2 by (simp add: grid_def hd_map)
  have l: "last grid = Rmin + real (n - 1) * dR" using ne n2 by (simp add: grid_def last_map)
  show ?thesis
  proof (cases "\<rho> \<le> Rmin + real (n - 1) * dR")
    case True
    then have "interp1d_fill grid I 0 \<rho> = interp_linear grid I \<rho>"
      using assms(3) by (simp add: interp1d_fill_def h l)
    also have "\<dots> = (if \<rho> = Rmin + real (n - 1) * dR then I ! (n - 1)
        else profile_interpolant I Rmin dR \<rho>)"
      unfolding grid_def by (rule interp_linear_grid[OF n2 assms(2,3) True]) (simp add: n_def)
    finally show ?thesis unfolding g n_def .
  next
    case False
    then have "interp1d_fill grid I 0 \<rho> = 0" by (simp add: interp1d_fill_def l)
    moreover have "profile_interpolant I Rmin dR \<rho> = 0"
      using False assms(1) by (intro profile_interpolant_beyond[OF assms(2)]) (simp_all add: n_def)
    ultimately show ?thesis using False unfolding g n_def by simp
  qed
qed

lemma linspace_pixel_axis:
  assumes "c < n"
  shows "linspace (1/2) (- (1/2) + 1 / real n) n ! c * dxy * real n = (real n / 2 - real c) * dxy"
proof -
  define L where "L = linspace (1/2) (- (1/2) + 1 / real n) n ! c"
  have Lv: "L = 1/2 - real c / real n"
  proof (cases "n = 1")
    case True
    then show ?thesis using assms by (simp add: L_def linspace_def)
  next
    case False
    then have n2: "2 \<le> n" using assms by simp
    then have r: "real (n - 1) = real n - 1" "real n - 1 \<noteq> 0" "real n \<noteq> 0" by auto
    have "(- (1/2) + 1 / real n - 1/2) / (real n - 1) = - (1 / real n)"
      using r(2,3) by (simp add: field_simps)
    then have "1/2 + real c * ((- (1/2) + 1 / real n - 1/2) / real (n - 1)) = 1/2 - real c / real n"
      unfolding r(1) by simp
    moreover have "L = 1/2 + real c * ((- (1/2) + 1 / real n - 1/2) / real (n - 1))"
      unfolding L_def linspace_def using assms False by (simp only: nth_map length_upt nth_upt
          diff_zero add_0 if_False)
    ultimately show ?thesis by simp
  qed
  have "real n \<noteq> 0" using assms by simp
  then have "(1/2 - real c / real n) * dxy * real n = (real n / 2 - real c) * dxy"
    by (simp add: field_simps)
  then have "L * dxy * real n = (real n / 2 - real c) * dxy"
    unfolding Lv .
  then show ?thesis unfolding L_def .
qed

lemma sweep_ref_pixels:
  assumes "0 < nrow" "0 < ncol" "cos (inc / 180 * pi) \<noteq> 0" "2 \<le> length I" "dR \<noteq> 0"
  shows "\<exists>B. sweep_ref I Rmin dR nrow ncol dxy inc Dx Dy = Inr B \<and>
     (\<forall>r<nrow. \<forall>c<ncol. B ! r ! c =
        (if r = nrow div 2 \<and> c = ncol div 2
         then interp_linear (linspace Rmin (Rmin + dR * (real (length I) - 1)) (length I)) I 0
         else interp1d_fill (linspace Rmin (Rmin + dR * (real (length I) - 1)) (length I)) I 0
                (sqrt ((((real ncol / 2 - real c) * dxy - Dx * dxy) / cos (inc / 180 * pi))\<^sup>2
                     + ((real nrow / 2 - real r) * dxy - Dy * dxy)\<^sup>2))))"
proof -
  define grid where "grid = linspace Rmin (Rmin + dR * (real (length I) - 1)) (length I)"
  define x where "x = map (\<lambda>t. t * dxy * real ncol) (linspace (1/2) (- (1/2) + 1 / real ncol) ncol)"
  define y where "y = map (\<lambda>t. t * dxy * real nrow) (linspace (1/2) (- (1/2) + 1 / real nrow) nrow)"
  define xs where "xs = map (\<lambda>t. (t - Dx * dxy) / cos (inc / 180 * pi)) x"
  define ys where "ys = map (\<lambda>t. t - Dy * dxy) y"
  define intensmap where "intensmap =
      map (map (interp1d_fill grid I 0)) (map (\<lambda>yyy. map (\<lambda>xxx. sqrt (xxx\<^sup>2 + yyy\<^sup>2)) xs) ys)"
  have c: "\<not> (ncol = 0 \<or> nrow = 0)" "\<not> length I < 2"
    using assms by auto
  have eq: "sweep_ref I Rmin dR nrow ncol dxy inc Dx Dy =
      img_set intensmap (int (nrow div 2)) (int (ncol div 2)) (interp_linear grid I 0)"
    unfolding sweep_ref_def Let_def interp1d_extrapolate_def intensmap_def xs_def ys_def x_def y_def grid_def
    using c assms(3,5) by (simp only: if_False)
  have lxy: "length x = ncol" "length y = nrow"
    by (simp_all add: x_def y_def length_linspace)
  have lx: "length xs = ncol" "length ys = nrow"
    by (simp_all add: xs_def ys_def lxy)
  have sh: "has_shape intensmap nrow ncol"
    by (simp add: has_shape_def list_all_length intensmap_def lx)
  define B where "B = intensmap[nat (int (nrow div 2)) := (intensmap ! nat (int (nrow div 2)))
        [nat (int (ncol div 2)) := interp_linear grid I 0]]"
  have set: "img_set intensmap (int (nrow div 2)) (int (ncol div 2)) (interp_linear grid I 0) = Inr B"
    unfolding B_def using assms(1,2) by (intro img_set_ok[OF sh]) auto
  have pc: "py_index nrow (int (nrow div 2)) = Inr (nrow div 2)"
    "py_index ncol (int (ncol div 2)) = Inr (ncol div 2)"
    using assms(1,2) by (simp_all add: center_index)
  have val: "B ! r ! c = (if r = nrow div 2 \<and> c = ncol div 2 then interp_linear grid I 0
      else interp1d_fill grid I 0
                (sqrt ((((real ncol / 2 - real c) * dxy - Dx * dxy) / cos (inc / 180 * pi))\<^sup>2
                     + ((real nrow / 2 - real r) * dxy - Dy * dxy)\<^sup>2)))"
    if "r < nrow" "c < ncol" for r c
  proof -
    have x0: "x ! c = (real ncol / 2 - real c) * dxy"
      unfolding x_def using that(2) by (simp only: nth_map length_linspace linspace_pixel_axis)
    have y0: "y ! r = (real nrow / 2 - real r) * dxy"
      unfolding y_def using that(1) by (simp only: nth_map length_linspace linspace_pixel_axis)
    have xc: "xs ! c = ((real ncol / 2 - real c) * dxy - Dx * dxy) / cos (inc / 180 * pi)"
      unfolding xs_def using that(2) lxy by (simp only: nth_map x0)
    have yr: "ys ! r = (real nrow / 2 - real r) * dxy - Dy * dxy"
      unfolding ys_def using that(1) lxy by (simp only: nth_map y0)
    have "intensmap ! r ! c = interp1d_fill grid I 0 (sqrt ((xs ! c)\<^sup>2 + (ys ! r)\<^sup>2))"
      using that lx by (simp add: intensmap_def)
    then have "intensmap ! r ! c = interp1d_fill grid I 0
                (sqrt ((((real ncol / 2 - real c) * dxy - Dx * dxy) / cos (inc / 180 * pi))\<^sup>2
                     + ((real nrow / 2 - real r) * dxy - Dy * dxy)\<^sup>2))"
      by (simp only: xc yr)
    then show ?thesis
      using img_set_nth[OF set sh that] pc by auto
  qed
  show ?thesis using eq set val unfolding grid_def by auto
qed

lemma radius_ge_axes:
  fixes a b :: int
  assumes "cs \<noteq> 0" "\<bar>cs\<bar> \<le> 1"
  shows "\<bar>of_int a * dxy\<bar> \<le> sqrt ((of_int a * dxy / cs)\<^sup>2 + (of_int b * dxy)\<^sup>2)"
    and "\<bar>of_int b * dxy\<bar> \<le> sqrt ((of_int a * dxy / cs)\<^sup>2 + (of_int b * dxy)\<^sup>2)"
proof -
  have "\<bar>of_int a * dxy\<bar> * \<bar>cs\<bar> \<le> \<bar>of_int a * dxy\<bar> * 1"
    by (rule mult_left_mono[OF assms(2)]) simp
  then have "\<bar>of_int a * dxy\<bar> \<le> \<bar>of_int a * dxy\<bar> / \<bar>cs\<bar>"
    using assms(1) by (simp add: pos_le_divide_eq)
  also have "\<dots> = sqrt ((of_int a * dxy / cs)\<^sup>2)" by simp
  also have "\<dots> \<le> sqrt ((of_int a * dxy / cs)\<^sup>2 + (of_int b * dxy)\<^sup>2)"
    by (rule real_sqrt_le_mono) simp
  finally show "\<bar>of_int a * dxy\<bar> \<le> sqrt ((of_int a * dxy / cs)\<^sup>2 + (of_int b * dxy)\<^sup>2)" .
  have "\<bar>of_int b * dxy\<bar> = sqrt ((of_int b * dxy)\<^sup>2)" by simp
  also have "\<dots> \<le> sqrt ((of_int a * dxy / cs)\<^sup>2 + (of_int b * dxy)\<^sup>2)"
    by (rule real_sqrt_le_mono) simp
  finally show "\<bar>of_int b * dxy\<bar> \<le> sqrt ((of_int a * dxy / cs)\<^sup>2 + (of_int b * dxy)\<^sup>2)" .
qed

lemma g_sweep_prototype_outside:
  assumes "g_sweep_prototype I Rmin dR nrow ncol dxy inc = Inr A"
    and "r < nrow" "c < ncol" "r \<noteq> nrow div 2 \<or> c \<noteq> ncol div 2"
    and "sweep_rmax I Rmin dR nrow dxy \<le> int (ncol div 2)"
    and "int r < int (nrow div 2) - sweep_rmax I Rmin dR nrow dxy
       \<or> int (nrow div 2) + sweep_rmax I Rmin dR nrow dxy \<le> int r
       \<or> int c < int (ncol div 2) - sweep_rmax I Rmin dR nrow dxy
       \<or> int (ncol div 2) + sweep_rmax I Rmin dR nrow dxy \<le> int c"
  shows "A ! r ! c = 0"
proof -
  define rmax where "rmax = sweep_rmax I Rmin dR nrow dxy"
  define ro where "ro = int (nrow div 2) - rmax"
  define co where "co = int (ncol div 2) - rmax"
  obtain img1 where g0:
    "sweep_rows (sweep_pixel I Rmin dR dxy (cos (inc / 180 * pi)) (sweep_rmax I Rmin dR nrow dxy))
       (int (nrow div 2) - sweep_rmax I Rmin dR nrow dxy)
       (int (ncol div 2) - sweep_rmax I Rmin dR nrow dxy)
       (zeros nrow ncol)
       [0..sweep_rmax I Rmin dR nrow dxy * 2 - 1] [0..sweep_rmax I Rmin dR nrow dxy * 2 - 1] = Inr img1"
    "Rmin = 0 \<longrightarrow> A = img1"
    "Rmin \<noteq> 0 \<longrightarrow> dR \<noteq> 0 \<and> 2 \<le> length I \<and>
       img_set img1 (int (nrow div 2)) (int (ncol div 2)) (center_value I Rmin dR) = Inr A"
    using g_sweep_prototype_Inr[OF assms(1)] by blast
  have g3: "sweep_rows (sweep_pixel I Rmin dR dxy (cos (inc / 180 * pi)) rmax) ro co (zeros nrow ncol)
       [0..rmax * 2 - 1] [0..rmax * 2 - 1] = Inr img1"
    unfolding rmax_def ro_def co_def by (rule g0(1))
  have ro0: "0 \<le> ro" unfolding ro_def rmax_def sweep_rmax_def by simp
  have co0: "0 \<le> co" unfolding co_def rmax_def using assms(5) by simp
  have out: "(\<forall>i\<in>set [0..rmax * 2 - 1]. py_index nrow (i + ro) \<noteq> Inr r) \<or>
        (\<forall>j\<in>set [0..rmax * 2 - 1]. py_index ncol (j + co) \<noteq> Inr c)"
  proof -
    from assms(6) consider
      "int r < ro \<or> ro + rmax * 2 \<le> int r" | "int c < co \<or> co + rmax * 2 \<le> int c"
      unfolding ro_def co_def rmax_def by fastforce
    then show ?thesis
    proof cases
      case 1
      have "py_index nrow (i + ro) \<noteq> Inr r" if "i \<in> set [0..rmax * 2 - 1]" for i
      proof
        assume e: "py_index nrow (i + ro) = Inr r"
        have i: "0 \<le> i" "i < rmax * 2" using that by auto
        then have n: "0 \<le> i + ro" using ro0 by simp
        from py_index_nonneg[OF n e] have "int r = i + ro" using n by simp
        with 1 i show False by linarith
      qed
      then show ?thesis by blast
    next
      case 2
      have "py_index ncol (j + co) \<noteq> Inr c" if "j \<in> set [0..rmax * 2 - 1]" for j
      proof
        assume e: "py_index ncol (j + co) = Inr c"
        have j: "0 \<le> j" "j < rmax * 2" using that by auto
        then have n: "0 \<le> j + co" using co0 by simp
        from py_index_nonneg[OF n e] have "int c = j + co" using n by simp
        with 2 j show False by linarith
      qed
      then show ?thesis by blast
    qed
  qed
  have "img1 ! r ! c = zeros nrow ncol ! r ! c"
    by (rule sweep_rows_frame[OF g3 has_shape_zeros assms(2,3) out])
  then have z: "img1 ! r ! c = 0" using assms(2,3) by (simp add: zeros_nth)
  have sh1: "has_shape img1 nrow ncol"
    by (rule sweep_rows_shape[OF g3 has_shape_zeros])
  have "A ! r ! c = img1 ! r ! c"
  proof (cases "Rmin = 0")
    case True
    then show ?thesis using g0(2) by simp
  next
    case False
    then have s: "img_set img1 (int (nrow div 2)) (int (ncol div 2)) (center_value I Rmin dR) = Inr A"
      using g0(3) by simp
    have "0 < nrow" "0 < ncol" using assms(2,3) by auto
    then have "py_index nrow (int (nrow div 2)) = Inr (nrow div 2)"
      "py_index ncol (int (ncol div 2)) = Inr (ncol div 2)"
      by (simp_all add: center_index)
    then show ?thesis
      using img_set_nth[OF s sh1 assms(2,3)] assms(4) by auto
  qed
  with z show ?thesis by simp
qed

lemma g_sweep_prototype_center_Rmin0:
  assumes "g_sweep_prototype I 0 dR nrow ncol dxy inc = Inr A"
    and "1 \<le> sweep_rmax I 0 dR nrow dxy" "sweep_rmax I 0 dR nrow dxy \<le> int (ncol div 2)"
    and "2 \<le> length I" "0 < dR"
  shows "A ! (nrow div 2) ! (ncol div 2) = I ! 0"
proof -
  define rmax where "rmax = sweep_rmax I 0 dR nrow dxy"
  define ro where "ro = int (nrow div 2) - rmax"
  define co where "co = int (ncol div 2) - rmax"
  define cs where "cs = cos (inc / 180 * pi)"
  obtain img1 where g0:
    "sweep_rows (sweep_pixel I 0 dR dxy (cos (inc / 180 * pi)) (sweep_rmax I 0 dR nrow dxy))
       (int (nrow div 2) - sweep_rmax I 0 dR nrow dxy)
       (int (ncol div 2) - sweep_rmax I 0 dR nrow dxy)
       (zeros nrow ncol)
       [0..sweep_rmax I 0 dR nrow dxy * 2 - 1] [0..sweep_rmax I 0 dR nrow dxy * 2 - 1] = Inr img1"
    "A = img1"
    using g_sweep_prototype_Inr[OF assms(1)] by blast
  have g3: "sweep_rows (sweep_pixel I 0 dR dxy cs rmax) ro co (zeros nrow ncol)
       [0..rmax * 2 - 1] [0..rmax * 2 - 1] = Inr img1"
    unfolding rmax_def ro_def co_def cs_def by (rule g0(1))
  have ro0: "0 \<le> ro" unfolding ro_def rmax_def sweep_rmax_def by simp
  have mem: "rmax \<in> set [0..rmax * 2 - 1]" using assms(2) unfolding rmax_def by auto
  have nonneg: "\<forall>i\<in>set [0..rmax * 2 - 1]. 0 \<le> i + ro" using ro0 by auto
  have jc: "0 \<le> rmax + co" unfolding co_def by simp
  have v: "nat (rmax + ro) < nrow \<and> nat (rmax + co) < ncol \<and>
         sweep_pixel I 0 dR dxy cs rmax rmax rmax = Inr (img1 ! nat (rmax + ro) ! nat (rmax + co))"
    by (rule sweep_rows_value[OF g3 has_shape_zeros nonneg sorted_wrt_upto sorted_wrt_upto mem mem jc])
  have rc: "nat (rmax + ro) = nrow div 2" "nat (rmax + co) = ncol div 2"
    unfolding ro_def co_def by simp_all
  have cs: "cs \<noteq> 0" using v by (auto simp: sweep_pixel_def split: if_splits)
  have "py_get I 0 = Inr (I ! 0)" "py_get I 1 = Inr (I ! 1)"
    using assms(4) by (auto simp: py_get_def py_index_def)
  then have "sweep_pixel I 0 dR dxy cs rmax rmax rmax = Inr (I ! 0)"
    using cs assms(4,5) by (simp add: sweep_pixel_def)
  then show ?thesis using v rc g0(2) by simp
qed

lemma sweeps_agree_off_truncation_radius:
  assumes "2 \<le> length I" "0 < dR" "0 < dxy" "- dR \<le> Rmin" "Rmin \<le> dxy"
    and "Rmin \<le> real (length I) * dR" "cos (inc / 180 * pi) \<noteq> 0" "even N" "0 < N"
  shows "\<exists>A B. g_sweep_prototype I Rmin dR N N dxy inc = Inr A \<and>
      sweep_ref I Rmin dR N N dxy inc 0 0 = Inr B \<and>
      (\<forall>r<N. \<forall>c<N.
         (if (r \<noteq> N div 2 \<or> c \<noteq> N div 2) \<and>
             deproject (of_int (int (N div 2) - int c) * dxy)
                       (of_int (int (N div 2) - int r) * dxy) inc
               = Rmin + real (length I - 1) * dR
          then A ! r ! c = 0 \<and> B ! r ! c = I ! (length I - 1)
          else A ! r ! c = B ! r ! c) \<and>
         ((r \<noteq> N div 2 \<or> c \<noteq> N div 2) \<and>
          Rmin + real (length I - 1) * dR
            < deproject (of_int (int (N div 2) - int c) * dxy)
                        (of_int (int (N div 2) - int r) * dxy) inc
          \<longrightarrow> A ! r ! c = 0 \<and> B ! r ! c = 0))"
proof -
  define m where "m = N div 2"
  define n where "n = length I"
  define cs where "cs = cos (inc / 180 * pi)"
  define trunc where "trunc = Rmin + real (n - 1) * dR"
  define rmax where "rmax = sweep_rmax I Rmin dR N dxy"
  define ce where "ce = \<lceil>(Rmin + real n * dR) / dxy\<rceil>"
  define grid where "grid = linspace Rmin (Rmin + dR * (real (length I) - 1)) (length I)"
  define rho where "rho = (\<lambda>r c. deproject (of_int (int m - int c) * dxy)
                                        (of_int (int m - int r) * dxy) inc)"
  have N2: "N = 2 * m" "1 \<le> m" using assms(8,9) by (auto simp: m_def elim: evenE)
  have halfN: "real N / 2 = real m" using N2 by simp
  have cs1: "\<bar>cs\<bar> \<le> 1" "cs \<noteq> 0" using assms(7) by (simp_all add: cs_def)
  have n2: "2 \<le> n" using assms(1) by (simp add: n_def)
  have rm: "rmax = min ce (int m)" by (simp add: rmax_def sweep_rmax_def ce_def n_def m_def)
  have "dR \<le> Rmin + real n * dR"
  proof -
    have "2 * dR \<le> real n * dR" using n2 assms(2) by simp
    then show ?thesis using assms(4) by linarith
  qed
  then have pos: "0 < (Rmin + real n * dR) / dxy" using assms(2,3) by simp
  then have ce1: "1 \<le> ce" unfolding ce_def by linarith
  have rmax1: "1 \<le> rmax" "rmax \<le> int m" using ce1 N2 rm by auto
  have tr_lt: "trunc < Rmin + real n * dR"
    using assms(2) n2 by (simp add: trunc_def of_nat_diff algebra_simps)
  obtain A where A: "g_sweep_prototype I Rmin dR N N dxy inc = Inr A"
    using g_sweep_prototype_returns[OF assms(5) _ assms(2,7,1,6,9)] assms(3) by auto
  obtain B where B: "sweep_ref I Rmin dR N N dxy inc 0 0 = Inr B"
    and Bv: "\<forall>r<N. \<forall>c<N. B ! r ! c =
        (if r = N div 2 \<and> c = N div 2 then interp_linear grid I 0
         else interp1d_fill grid I 0
                (sqrt ((((real N / 2 - real c) * dxy - 0 * dxy) / cos (inc / 180 * pi))\<^sup>2
                     + ((real N / 2 - real r) * dxy - 0 * dxy)\<^sup>2)))"
    using sweep_ref_pixels[OF assms(9,9,7,1), of dR Rmin dxy 0 0] assms(2) unfolding grid_def by auto
  have rho_sqrt: "rho r c = sqrt ((of_int (int m - int c) * dxy / cs)\<^sup>2
                                   + (of_int (int m - int r) * dxy)\<^sup>2)" for r c
    by (simp add: rho_def deproject_def cs_def)
  have Bnc: "B ! r ! c = interp1d_fill grid I 0 (rho r c)"
    if "r < N" "c < N" "r \<noteq> m \<or> c \<noteq> m" for r c
  proof -
    have e: "sqrt ((((real N / 2 - real c) * dxy - 0 * dxy) / cos (inc / 180 * pi))\<^sup>2
                     + ((real N / 2 - real r) * dxy - 0 * dxy)\<^sup>2) = rho r c"
      unfolding halfN by (simp add: rho_def deproject_def)
    have "B ! r ! c =
        (if r = N div 2 \<and> c = N div 2 then interp_linear grid I 0
         else interp1d_fill grid I 0
                (sqrt ((((real N / 2 - real c) * dxy - 0 * dxy) / cos (inc / 180 * pi))\<^sup>2
                     + ((real N / 2 - real r) * dxy - 0 * dxy)\<^sup>2)))"
      using Bv that(1,2) by blast
    moreover have "\<not> (r = N div 2 \<and> c = N div 2)" using that(3) by (simp add: m_def)
    ultimately have "B ! r ! c = interp1d_fill grid I 0
                (sqrt ((((real N / 2 - real c) * dxy - 0 * dxy) / cos (inc / 180 * pi))\<^sup>2
                     + ((real N / 2 - real r) * dxy - 0 * dxy)\<^sup>2))"
      by (simp only: if_False)
    then show ?thesis by (simp only: e)
  qed
  have beyond: "profile_interpolant I Rmin dR x = 0" if "trunc \<le> x" for x
    using that n2 unfolding trunc_def n_def
    by (intro profile_interpolant_beyond[OF assms(2)]) simp_all
  have center: "A ! m ! m = B ! m ! m"
  proof -
    have "m < N" using N2 by simp
    then have "B ! m ! m = interp_linear grid I 0" using Bv[folded m_def] by simp
    then have b: "B ! m ! m = center_value I Rmin dR"
      unfolding grid_def using interp_linear_center[OF assms(1,2,4)] by simp
    show ?thesis
    proof (cases "Rmin = 0")
      case True
      have "A ! (N div 2) ! (N div 2) = I ! 0"
        using A rmax1 assms(1,2) unfolding True rmax_def m_def
        by (intro g_sweep_prototype_center_Rmin0[where dR = dR and dxy = dxy and inc = inc]) auto
      then show ?thesis using b True by (simp add: center_value_def m_def)
    next
      case False
      show ?thesis using g_sweep_prototype_center[OF A False] b by (simp add: m_def)
    qed
  qed
  have px: "A ! r ! c = profile_interpolant I Rmin dR (rho r c) \<and>
            B ! r ! c = (if rho r c = trunc then I ! (n - 1)
                         else profile_interpolant I Rmin dR (rho r c))"
    if "r < N" "c < N" "r \<noteq> m \<or> c \<noteq> m" for r c
  proof -
    have nz: "int m - int c \<noteq> 0 \<or> int m - int r \<noteq> 0" using that(3) by auto
    have "\<bar>dxy\<bar> \<le> rho r c"
      unfolding rho_sqrt by (rule radius_ge[OF nz cs1(2) cs1(1)])
    then have ge: "Rmin \<le> rho r c" using assms(5) by linarith
    have b: "B ! r ! c = (if rho r c = trunc then I ! (n - 1)
                         else profile_interpolant I Rmin dR (rho r c))"
      using Bnc[OF that] interp1d_fill_grid[OF assms(1,2) ge]
      by (simp add: grid_def trunc_def n_def)
    show ?thesis
    proof (cases "int m - rmax \<le> int r \<and> int r < int m + rmax \<and>
                  int m - rmax \<le> int c \<and> int c < int m + rmax")
      case True
      have "A ! r ! c = profile_interpolant I Rmin dR
           (deproject (of_int (int (N div 2) - int c) * dxy)
                      (of_int (int (N div 2) - int r) * dxy) inc)"
        using g_sweep_prototype_pixel[OF A assms(2), of r c] True that(3)
        unfolding rmax_def m_def by blast
      then show ?thesis using b by (simp add: rho_def m_def)
    next
      case False
      then have out: "int r < int (N div 2) - sweep_rmax I Rmin dR N dxy
       \<or> int (N div 2) + sweep_rmax I Rmin dR N dxy \<le> int r
       \<or> int c < int (N div 2) - sweep_rmax I Rmin dR N dxy
       \<or> int (N div 2) + sweep_rmax I Rmin dR N dxy \<le> int c"
        unfolding rmax_def m_def by linarith
      have a0: "A ! r ! c = 0"
        using that rmax1(2) unfolding rmax_def m_def
        by (intro g_sweep_prototype_outside[OF A _ _ _ _ out]) auto
      have "rmax < int m" using False that(1,2) N2 by linarith
      then have rce: "rmax = ce" using rm by simp
      have "ce \<le> \<bar>int m - int r\<bar> \<or> ce \<le> \<bar>int m - int c\<bar>"
        using False rce by linarith
      then have "real_of_int ce \<le> \<bar>real_of_int (int m - int r)\<bar>
               \<or> real_of_int ce \<le> \<bar>real_of_int (int m - int c)\<bar>"
        by (metis of_int_abs of_int_le_iff)
      moreover have "(Rmin + real n * dR) / dxy \<le> real_of_int ce"
        unfolding ce_def by linarith
      ultimately have "(Rmin + real n * dR) / dxy \<le> \<bar>real_of_int (int m - int r)\<bar>
               \<or> (Rmin + real n * dR) / dxy \<le> \<bar>real_of_int (int m - int c)\<bar>"
        by linarith
      then have "Rmin + real n * dR \<le> \<bar>real_of_int (int m - int r) * dxy\<bar>
               \<or> Rmin + real n * dR \<le> \<bar>real_of_int (int m - int c) * dxy\<bar>"
        using assms(3) by (simp add: abs_mult pos_divide_le_eq)
      moreover have "\<bar>real_of_int (int m - int c) * dxy\<bar> \<le> rho r c"
        "\<bar>real_of_int (int m - int r) * dxy\<bar> \<le> rho r c"
        unfolding rho_sqrt by (rule radius_ge_axes[OF cs1(2) cs1(1)])+
      ultimately have "Rmin + real n * dR \<le> rho r c" by linarith
      then have far: "trunc < rho r c" using tr_lt by linarith
      then have "profile_interpolant I Rmin dR (rho r c) = 0" by (intro beyond) simp
      then show ?thesis using a0 b far by simp
    qed
  qed
  have "(if (r \<noteq> m \<or> c \<noteq> m) \<and> rho r c = trunc
          then A ! r ! c = 0 \<and> B ! r ! c = I ! (n - 1)
          else A ! r ! c = B ! r ! c) \<and>
         ((r \<noteq> m \<or> c \<noteq> m) \<and> trunc < rho r c \<longrightarrow> A ! r ! c = 0 \<and> B ! r ! c = 0)"
    if "r < N" "c < N" for r c
  proof (cases "r \<noteq> m \<or> c \<noteq> m")
    case True
    show ?thesis using px[OF that True] beyond[of "rho r c"] True by auto
  next
    case False
    then show ?thesis using center by simp
  qed
  then show ?thesis
    using A B unfolding rho_def trunc_def n_def m_def by blast
qed

text \<open>
  The center pixel where both sweeps return: \<^verbatim>\<open>sweep_ref\<close> stores the closed-form
  value whenever the radius \<open>0\<close> lies at or below the second grid point
  (\<open>-dR \<le> Rmin\<close>, so for every positive \<open>Rmin\<close>), and every image the prototype
  returns holds it too.
\<close>

lemma sweep_center_pixel:
  assumes "2 \<le> length I" and "0 < dR" and "Rmin \<noteq> 0"
    and "cos (inc / 180 * pi) \<noteq> 0" and "0 < nrow" and "0 < ncol"
  shows "(- dR \<le> Rmin \<longrightarrow>
            (\<exists>B. sweep_ref I Rmin dR nrow ncol dxy inc Dx Dy = Inr B \<and>
                 B ! (nrow div 2) ! (ncol div 2) = center_value I Rmin dR)) \<and>
         (\<forall>A. g_sweep_prototype I Rmin dR nrow ncol dxy inc = Inr A \<longrightarrow>
              A ! (nrow div 2) ! (ncol div 2) = center_value I Rmin dR) \<and>
         (Rmin \<le> dxy \<and> dxy \<noteq> 0 \<and> Rmin \<le> real (length I) * dR \<and> nrow \<le> ncol \<longrightarrow>
            (\<exists>A. g_sweep_prototype I Rmin dR nrow ncol dxy inc = Inr A))"
  using sweep_ref_center[OF assms(5,6,4,1,2)] g_sweep_prototype_center[OF _ assms(3)]
    g_sweep_prototype_returns[OF _ _ assms(2,4,1) _ assms(5)]
  by blast

lemma sqrt18_gt_4: "4 < sqrt 18"
  by (rule real_less_rsqrt) simp

section \<open>Consistency of the two phase shifts\<close>

text \<open>
  The shifted frequencies of \<^verbatim>\<open>fftshift(fftfreq(nx))\<close> are \<open>(j - nx div 2)/nx\<close>, so the
  phase grid of \<^verbatim>\<open>Fourier_shift_static\<close> is the phase of \<^verbatim>\<open>Fourier_shift_array\<close> at the
  points \<open>u = (j - nx div 2)\<cdot>du\<close>, \<open>v = (i - nx div 2)\<cdot>du\<close> for
  \<open>du = maxuv/(nx\<cdot>wle)\<close>. Between the nodes the bilinear sample of the shifted grid
  weighs four neighbours that carry four phases, and the sample of the unshifted grid
  carries one; \<open>|cis \<alpha> - cis \<beta>| \<le> |\<alpha> - \<beta>|\<close> bounds the difference.
\<close>

lemma fftshift_fftfreq_nth:
  assumes "j < n"
  shows "fftshift (fftfreq n) ! j = (real j - real (n div 2)) / real n"
proof -
  define h where "h = n div 2"
  define p where "p = (n - 1) div 2"
  define ks where "ks = [0..int p] @ [- int h..-1]"
  have n0: "0 < n" using assms by simp
  have l1: "length [0..int p] = p + 1" by simp
  have l2: "length [- int h..-1] = h" by simp
  have ph: "p + 1 + h = n" using n0 unfolding p_def h_def by presburger
  have lk: "length ks = n" using l1 l2 ph by (simp add: ks_def)
  have ff: "fftfreq n = map (\<lambda>k. real_of_int k / real n) ks"
    by (simp add: fftfreq_def ks_def p_def h_def)
  define q where "q = p + 1"
  have rot: "n - n div 2 = q" using ph by (simp add: h_def q_def)
  have lf: "length (fftfreq n) = n" using lk by (simp add: ff)
  have "fftshift (fftfreq n) ! j = fftfreq n ! ((q + j) mod n)"
    unfolding fftshift_def lf rot using assms lf by (simp only: nth_rotate)
  also have "\<dots> = real_of_int (ks ! ((q + j) mod n)) / real n"
    using lk n0 by (simp add: ff)
  also have "(q + j) mod n = (j + (p + 1)) mod n" by (simp add: q_def add.commute)
  also have "ks ! ((j + (p + 1)) mod n) = int j - int h"
  proof (cases "j < h")
    case True
    then have lt: "j + (p + 1) < n" using ph by simp
    then have "(j + (p + 1)) mod n = j + (p + 1)" by simp
    moreover have "ks ! (j + (p + 1)) = [- int h..-1] ! j"
      unfolding ks_def using l1 by (simp add: nth_append)
    moreover have "[- int h..-1] ! j = - int h + int j"
      using True by (intro nth_upto) simp
    ultimately show ?thesis by simp
  next
    case False
    then have ge: "n \<le> j + (p + 1)" using ph by simp
    have "j + (p + 1) < n + n" using assms ph by simp
    have "j + (p + 1) = (j - h) + n" using ph False by simp
    moreover have "j - h < n" using assms by simp
    ultimately have m: "(j + (p + 1)) mod n = j - h" by simp
    have jh: "j - h < p + 1" using assms ph False by simp
    then have "ks ! (j - h) = [0..int p] ! (j - h)"
      unfolding ks_def using l1 by (simp add: nth_append)
    moreover have "[0..int p] ! (j - h) = 0 + int (j - h)"
      using jh by (intro nth_upto) simp
    ultimately show ?thesis using m False by simp
  qed
  finally show ?thesis by (simp add: h_def)
qed

lemma norm_cis_diff: "norm (cis \<alpha> - cis \<beta>) \<le> \<bar>\<alpha> - \<beta>\<bar>"
proof -
  define d where "d = (\<alpha> - \<beta>) / 2"
  have dd: "\<alpha> - \<beta> = 2 * d" by (simp add: d_def)
  have "(norm (cis \<alpha> - cis \<beta>))\<^sup>2 = (cos \<alpha> - cos \<beta>)\<^sup>2 + (sin \<alpha> - sin \<beta>)\<^sup>2"
    by (simp add: cmod_power2)
  also have "\<dots> = 2 - 2 * (cos \<alpha> * cos \<beta> + sin \<alpha> * sin \<beta>)"
    using sin_cos_squared_add[of \<alpha>] sin_cos_squared_add[of \<beta>]
    by (simp add: power2_eq_square algebra_simps)
  also have "\<dots> = 2 - 2 * cos (\<alpha> - \<beta>)"
    by (simp only: cos_diff)
  also have "\<dots> = 2 - 2 * cos (2 * d)"
    by (simp only: dd)
  also have "\<dots> = (2 * sin d)\<^sup>2"
    unfolding cos_double_sin by (simp add: power_mult_distrib)
  finally have "(norm (cis \<alpha> - cis \<beta>))\<^sup>2 = \<bar>2 * sin d\<bar>\<^sup>2"
    by (simp only: power2_abs)
  then have "norm (cis \<alpha> - cis \<beta>) = \<bar>2 * sin d\<bar>"
    by (rule power2_eq_imp_eq) simp_all
  also have "\<dots> \<le> 2 * \<bar>d\<bar>" using abs_sin_le_one abs_sin_x_le_abs_x[of d] by (simp add: abs_mult)
  also have "\<dots> = \<bar>\<alpha> - \<beta>\<bar>" unfolding dd by simp
  finally show ?thesis .
qed


lemma int_bilin_MT_value:
  assumes "has_shape f nrow ncol"
    and "length y = length x"
    and "\<forall>i<length x. in_range nrow ncol (x ! i) (y ! i)"
  shows "int_bilin_MT f x y = Inr (map (\<lambda>(xi, yi). bilinear f xi yi) (zip x y))"
proof -
  have pre: "\<forall>i\<in>set [0..<length x]. i < length x \<and> i < length y \<and> in_range nrow ncol (x ! i) (y ! i)"
    using assms(2,3) by simp
  obtain out where out: "int_bilin_MT f x y = Inr out" "length out = length x"
    "\<forall>j<length x. out ! j = bilinear f (x ! j) (y ! j)"
    using int_bilin_loop_ok[OF assms(1) pre, of "replicate (length x) 0"]
    by (auto simp: int_bilin_MT_def)
  have "out = map (\<lambda>(xi, yi). bilinear f xi yi) (zip x y)"
    using out(2,3) assms(2) by (intro nth_equalityI) simp_all
  with out(1) show ?thesis by simp
qed

lemma has_shape_map: "has_shape g nrow ncol \<Longrightarrow> has_shape (map (map h) g) nrow ncol"
  by (simp add: has_shape_def list_all_length)

lemma sample_complex_value:
  assumes "has_shape g nrow ncol"
    and "length y = length x"
    and "\<forall>i<length x. in_range nrow ncol (x ! i) (y ! i)"
  shows "sample_complex g x y =
    Inr (map (\<lambda>k. Complex (bilinear (map (map Re) g) (x ! k) (y ! k))
                           (bilinear (map (map Im) g) (x ! k) (y ! k))) [0..<length x])"
proof -
  have re: "int_bilin_MT (map (map Re) g) x y
      = Inr (map (\<lambda>(xi, yi). bilinear (map (map Re) g) xi yi) (zip x y))"
    by (rule int_bilin_MT_value[OF has_shape_map[OF assms(1)] assms(2,3)])
  have im: "int_bilin_MT (map (map Im) g) x y
      = Inr (map (\<lambda>(xi, yi). bilinear (map (map Im) g) xi yi) (zip x y))"
    by (rule int_bilin_MT_value[OF has_shape_map[OF assms(1)] assms(2,3)])
  have "map (\<lambda>(a, b). Complex a b)
          (zip (map (\<lambda>(xi, yi). bilinear (map (map Re) g) xi yi) (zip x y))
               (map (\<lambda>(xi, yi). bilinear (map (map Im) g) xi yi) (zip x y)))
      = map (\<lambda>k. Complex (bilinear (map (map Re) g) (x ! k) (y ! k))
                           (bilinear (map (map Im) g) (x ! k) (y ! k))) [0..<length x]"
    using assms(2) by (intro nth_equalityI) simp_all
  then show ?thesis
    by (simp add: sample_complex_def re im)
qed

lemma bilinear_complex:
  assumes "has_shape g nrow ncol" and "in_range nrow ncol x y"
  shows "Complex (bilinear (map (map Re) g) x y) (bilinear (map (map Im) g) x y) =
      of_real ((1 - (y - of_int \<lfloor>y\<rfloor>)) * (1 - (x - of_int \<lfloor>x\<rfloor>))) * g ! nat \<lfloor>y\<rfloor> ! nat \<lfloor>x\<rfloor>
    + of_real ((y - of_int \<lfloor>y\<rfloor>) * (1 - (x - of_int \<lfloor>x\<rfloor>))) * g ! nat (\<lfloor>y\<rfloor> + 1) ! nat \<lfloor>x\<rfloor>
    + of_real ((y - of_int \<lfloor>y\<rfloor>) * (x - of_int \<lfloor>x\<rfloor>)) * g ! nat (\<lfloor>y\<rfloor> + 1) ! nat (\<lfloor>x\<rfloor> + 1)
    + of_real ((1 - (y - of_int \<lfloor>y\<rfloor>)) * (x - of_int \<lfloor>x\<rfloor>)) * g ! nat \<lfloor>y\<rfloor> ! nat (\<lfloor>x\<rfloor> + 1)"
proof -
  define t where "t = y - of_int \<lfloor>y\<rfloor>"
  define w where "w = x - of_int \<lfloor>x\<rfloor>"
  have b: "0 \<le> \<lfloor>x\<rfloor>" "\<lfloor>x\<rfloor> + 1 < int ncol" "0 \<le> \<lfloor>y\<rfloor>" "\<lfloor>y\<rfloor> + 1 < int nrow"
    using assms(2) by (simp_all add: in_range_def)
  have lg: "length g = nrow" using assms(1) by (simp add: has_shape_def)
  have part: "map (map h) g ! r ! c = h (g ! r ! c)" if "r < nrow" "c < ncol" for h :: "complex \<Rightarrow> real" and r c
    using that lg has_shape_row[OF assms(1) that(1)] by simp
  have i0: "nat \<lfloor>y\<rfloor> < nrow" and i1: "nat (\<lfloor>y\<rfloor> + 1) < nrow"
    and j0: "nat \<lfloor>x\<rfloor> < ncol" and j1: "nat (\<lfloor>x\<rfloor> + 1) < ncol"
    using b by linarith+
  show ?thesis
    unfolding bilinear_def Let_def t_def[symmetric] w_def[symmetric]
      part[OF i0 j0] part[OF i1 j0] part[OF i1 j1] part[OF i0 j1]
    by (simp add: complex_eq_iff algebra_simps)
qed

lemma corner_weight:
  fixes t w p q a b :: real
  assumes "0 \<le> t" "t \<le> 1" "0 \<le> w" "w \<le> 1"
    and "p = t \<or> p = 1 - t" and "q = w \<or> q = 1 - w"
  shows "p * q * (\<bar>a\<bar> * (1 - q) + \<bar>b\<bar> * (1 - p)) \<le> \<bar>a\<bar> * w + \<bar>b\<bar> * t"
proof -
  have p: "0 \<le> p" "p \<le> 1" using assms by auto
  have q: "0 \<le> q" "q \<le> 1" using assms by auto
  have pp0: "0 \<le> p * (1 - p)" using p by simp
  have qq0: "0 \<le> q * (1 - q)" using q by simp
  have "t * (1 - t) \<le> t * 1" using assms(1,2) by (intro mult_left_mono) auto
  then have pp: "p * (1 - p) \<le> t" using assms(5) by (auto simp: mult.commute)
  have "w * (1 - w) \<le> w * 1" using assms(3,4) by (intro mult_left_mono) auto
  then have qq: "q * (1 - q) \<le> w" using assms(6) by (auto simp: mult.commute)
  have "p * (q * (1 - q)) \<le> 1 * w"
    using p qq qq0 by (intro mult_mono) auto
  then have A: "\<bar>a\<bar> * (p * (q * (1 - q))) \<le> \<bar>a\<bar> * w"
    by (intro mult_left_mono) auto
  have "q * (p * (1 - p)) \<le> 1 * t"
    using q pp pp0 by (intro mult_mono) auto
  then have B: "\<bar>b\<bar> * (q * (p * (1 - p))) \<le> \<bar>b\<bar> * t"
    by (intro mult_left_mono) auto
  have "p * q * (\<bar>a\<bar> * (1 - q) + \<bar>b\<bar> * (1 - p))
      = \<bar>a\<bar> * (p * (q * (1 - q))) + \<bar>b\<bar> * (q * (p * (1 - p)))"
    by (simp add: algebra_simps)
  with A B show ?thesis by linarith
qed

lemma corner_term:
  fixes t w p q a b dt dw th :: real and f :: complex
  assumes "0 \<le> t" "t \<le> 1" "0 \<le> w" "w \<le> 1"
    and "(p = 1 - t \<and> dt = - t) \<or> (p = t \<and> dt = 1 - t)"
    and "(q = 1 - w \<and> dw = - w) \<or> (q = w \<and> dw = 1 - w)"
  shows "norm (of_real (p * q) * f * cis (th + a * dw + b * dt) - of_real (p * q) * f * cis th)
      \<le> (\<bar>a\<bar> * w + \<bar>b\<bar> * t) * norm f"
proof -
  have p: "0 \<le> p" "p \<le> 1" "p = t \<or> p = 1 - t" using assms by auto
  have q: "0 \<le> q" "q \<le> 1" "q = w \<or> q = 1 - w" using assms by auto
  have dt: "\<bar>dt\<bar> = 1 - p" using assms(1,2,5) by auto
  have dw: "\<bar>dw\<bar> = 1 - q" using assms(3,4,6) by auto
  have "\<bar>(th + a * dw + b * dt) - th\<bar> \<le> \<bar>a * dw\<bar> + \<bar>b * dt\<bar>"
    by simp
  also have "\<dots> = \<bar>a\<bar> * (1 - q) + \<bar>b\<bar> * (1 - p)"
    by (simp only: abs_mult dt dw)
  finally have ph: "norm (cis (th + a * dw + b * dt) - cis th) \<le> \<bar>a\<bar> * (1 - q) + \<bar>b\<bar> * (1 - p)"
    using norm_cis_diff[of "th + a * dw + b * dt" th] by linarith
  have pq: "0 \<le> p * q" using p q by simp
  have "of_real (p * q) * f * cis (th + a * dw + b * dt) - of_real (p * q) * f * cis th
      = of_real (p * q) * f * (cis (th + a * dw + b * dt) - cis th)"
    by (simp only: right_diff_distrib)
  then have "norm (of_real (p * q) * f * cis (th + a * dw + b * dt) - of_real (p * q) * f * cis th)
      = (p * q) * norm f * norm (cis (th + a * dw + b * dt) - cis th)"
    using pq by (simp only: norm_mult norm_of_real abs_of_nonneg)
  also have "\<dots> \<le> (p * q) * norm f * (\<bar>a\<bar> * (1 - q) + \<bar>b\<bar> * (1 - p))"
    using ph pq by (intro mult_left_mono) auto
  also have "\<dots> = (p * q * (\<bar>a\<bar> * (1 - q) + \<bar>b\<bar> * (1 - p))) * norm f"
    by (simp only: mult_ac)
  also have "\<dots> \<le> (\<bar>a\<bar> * w + \<bar>b\<bar> * t) * norm f"
    using corner_weight[OF assms(1-4) p(3) q(3), of a b]
    by (intro mult_right_mono) auto
  finally show ?thesis .
qed

lemma four_corner_bound:
  fixes t w a b th :: real and f00 f10 f11 f01 :: complex
  assumes "0 \<le> t" "t \<le> 1" "0 \<le> w" "w \<le> 1"
  shows "norm ((of_real ((1 - t) * (1 - w)) * f00 * cis (th + a * (- w) + b * (- t))
              + of_real (t * (1 - w)) * f10 * cis (th + a * (- w) + b * (1 - t))
              + of_real (t * w) * f11 * cis (th + a * (1 - w) + b * (1 - t))
              + of_real ((1 - t) * w) * f01 * cis (th + a * (1 - w) + b * (- t)))
            - (of_real ((1 - t) * (1 - w)) * f00 + of_real (t * (1 - w)) * f10
              + of_real (t * w) * f11 + of_real ((1 - t) * w) * f01) * cis th)
      \<le> (\<bar>a\<bar> * w + \<bar>b\<bar> * t) * (norm f00 + norm f10 + norm f11 + norm f01)"
proof -
  define e where "e = \<bar>a\<bar> * w + \<bar>b\<bar> * t"
  define d00 where "d00 = of_real ((1 - t) * (1 - w)) * f00 * cis (th + a * (- w) + b * (- t))
      - of_real ((1 - t) * (1 - w)) * f00 * cis th"
  define d10 where "d10 = of_real (t * (1 - w)) * f10 * cis (th + a * (- w) + b * (1 - t))
      - of_real (t * (1 - w)) * f10 * cis th"
  define d11 where "d11 = of_real (t * w) * f11 * cis (th + a * (1 - w) + b * (1 - t))
      - of_real (t * w) * f11 * cis th"
  define d01 where "d01 = of_real ((1 - t) * w) * f01 * cis (th + a * (1 - w) + b * (- t))
      - of_real ((1 - t) * w) * f01 * cis th"
  have b00: "norm d00 \<le> e * norm f00"
    unfolding d00_def e_def by (rule corner_term[OF assms]) simp_all
  have b10: "norm d10 \<le> e * norm f10"
    unfolding d10_def e_def by (rule corner_term[OF assms]) simp_all
  have b11: "norm d11 \<le> e * norm f11"
    unfolding d11_def e_def by (rule corner_term[OF assms]) simp_all
  have b01: "norm d01 \<le> e * norm f01"
    unfolding d01_def e_def by (rule corner_term[OF assms]) simp_all
  have split: "(of_real ((1 - t) * (1 - w)) * f00 * cis (th + a * (- w) + b * (- t))
              + of_real (t * (1 - w)) * f10 * cis (th + a * (- w) + b * (1 - t))
              + of_real (t * w) * f11 * cis (th + a * (1 - w) + b * (1 - t))
              + of_real ((1 - t) * w) * f01 * cis (th + a * (1 - w) + b * (- t)))
            - (of_real ((1 - t) * (1 - w)) * f00 + of_real (t * (1 - w)) * f10
              + of_real (t * w) * f11 + of_real ((1 - t) * w) * f01) * cis th
      = d00 + d10 + d11 + d01"
    unfolding d00_def d10_def d11_def d01_def by (simp only: distrib_right) simp
  have "norm (d00 + d10 + d11 + d01) \<le> norm d00 + norm d10 + norm d11 + norm d01"
    by (intro norm_triangle_mono order_refl norm_triangle_ineq)
  also have "\<dots> \<le> e * norm f00 + e * norm f10 + e * norm f11 + e * norm f01"
    using b00 b10 b11 b01 by linarith
  also have "\<dots> = e * (norm f00 + norm f10 + norm f11 + norm f01)"
    by (simp only: distrib_left)
  finally show ?thesis unfolding split e_def .
qed


lemma static_phase:
  assumes "0 < nx" and "wle \<noteq> 0" and "i < nx" and "j < nx"
  shows "(maxuv * (fftshift (fftfreq nx) ! j) * 2 * pi) * (x0 * (sec2rad / wle))
       + (maxuv * (fftshift (fftfreq nx) ! i) * 2 * pi) * (y0 * (sec2rad / wle))
     = (x0 * sec2rad * (2 * pi) * (maxuv / (real nx * wle))) * (real j - real (nx div 2))
     + (y0 * sec2rad * (2 * pi) * (maxuv / (real nx * wle))) * (real i - real (nx div 2))"
  unfolding fftshift_fftfreq_nth[OF assms(3)] fftshift_fftfreq_nth[OF assms(4)]
  using assms(1,2) by (simp add: field_simps)

lemma point_phase:
  fixes du :: real
  assumes "du \<noteq> 0" and "x = h + uk / du" and "y = h + vk / du"
  shows "uk * (x0 * sec2rad * (2 * pi)) + vk * (y0 * sec2rad * (2 * pi))
     = (x0 * sec2rad * (2 * pi) * du) * (x - h) + (y0 * sec2rad * (2 * pi) * du) * (y - h)"
proof -
  have ux: "uk = du * (x - h)" unfolding assms(2) using assms(1) by simp
  have vy: "vk = du * (y - h)" unfolding assms(3) using assms(1) by simp
  show ?thesis by (subst ux, subst vy) (simp only: mult_ac)
qed

lemma shifted_sample_bound:
  assumes sh: "has_shape ft nx nx" and nx: "0 < nx" and wle: "wle \<noteq> 0" and du0: "du \<noteq> 0"
    and du: "du = maxuv / (real nx * wle)"
    and rg: "in_range nx nx x y"
    and x: "x = real (nx div 2) + uk / du" and y: "y = real (nx div 2) + vk / du"
    and g: "g = map (\<lambda>i. map (\<lambda>j. ft ! i ! j *
            cis ((maxuv * (fftshift (fftfreq nx) ! j) * 2 * pi) * (x0 * (sec2rad / wle))
               + (maxuv * (fftshift (fftfreq nx) ! i) * 2 * pi) * (y0 * (sec2rad / wle))))
          [0..<nx]) [0..<nx]"
  shows "norm (Complex (bilinear (map (map Re) g) x y) (bilinear (map (map Im) g) x y)
             - Complex (bilinear (map (map Re) ft) x y) (bilinear (map (map Im) ft) x y)
               * cis (uk * (x0 * sec2rad * (2 * pi)) + vk * (y0 * sec2rad * (2 * pi))))
      \<le> interp_error_bound ft (x0 * sec2rad * (2 * pi) * du) (y0 * sec2rad * (2 * pi) * du) x y"
proof -
  define a where "a = x0 * sec2rad * (2 * pi) * du"
  define b where "b = y0 * sec2rad * (2 * pi) * du"
  define h where "h = real (nx div 2)"
  define t where "t = y - of_int \<lfloor>y\<rfloor>"
  define w where "w = x - of_int \<lfloor>x\<rfloor>"
  define i0 where "i0 = nat \<lfloor>y\<rfloor>"
  define i1 where "i1 = nat (\<lfloor>y\<rfloor> + 1)"
  define j0 where "j0 = nat \<lfloor>x\<rfloor>"
  define j1 where "j1 = nat (\<lfloor>x\<rfloor> + 1)"
  define th where "th = uk * (x0 * sec2rad * (2 * pi)) + vk * (y0 * sec2rad * (2 * pi))"
  define ph where "ph = (\<lambda>i j.
      (maxuv * (fftshift (fftfreq nx) ! j) * 2 * pi) * (x0 * (sec2rad / wle))
    + (maxuv * (fftshift (fftfreq nx) ! i) * 2 * pi) * (y0 * (sec2rad / wle)))"
  have bnd: "0 \<le> \<lfloor>x\<rfloor>" "\<lfloor>x\<rfloor> + 1 < int nx" "0 \<le> \<lfloor>y\<rfloor>" "\<lfloor>y\<rfloor> + 1 < int nx"
    using rg by (simp_all add: in_range_def)
  have lt: "i0 < nx" "i1 < nx" "j0 < nx" "j1 < nx"
    unfolding i0_def i1_def j0_def j1_def using bnd by linarith+
  have t01: "0 \<le> t" "t \<le> 1" unfolding t_def by linarith+
  have w01: "0 \<le> w" "w \<le> 1" unfolding w_def by linarith+
  have ri0: "real i0 = y - t" unfolding i0_def t_def using bnd(3) by simp
  have ri1: "real i1 = y - t + 1" unfolding i1_def t_def using bnd(3) by simp
  have rj0: "real j0 = x - w" unfolding j0_def w_def using bnd(1) by simp
  have rj1: "real j1 = x - w + 1" unfolding j1_def w_def using bnd(1) by simp
  have theta: "th = a * (x - h) + b * (y - h)"
    unfolding th_def a_def b_def h_def by (rule point_phase[OF du0 x y])
  have node: "ph i j = a * (real j - h) + b * (real i - h)" if "i < nx" "j < nx" for i j
    unfolding ph_def a_def b_def h_def du by (rule static_phase[OF nx wle that])
  have p00: "ph i0 j0 = th + a * (- w) + b * (- t)"
    unfolding node[OF lt(1) lt(3)] theta ri0 rj0 by (simp add: algebra_simps)
  have p10: "ph i1 j0 = th + a * (- w) + b * (1 - t)"
    unfolding node[OF lt(2) lt(3)] theta ri1 rj0 by (simp add: algebra_simps)
  have p11: "ph i1 j1 = th + a * (1 - w) + b * (1 - t)"
    unfolding node[OF lt(2) lt(4)] theta ri1 rj1 by (simp add: algebra_simps)
  have p01: "ph i0 j1 = th + a * (1 - w) + b * (- t)"
    unfolding node[OF lt(1) lt(4)] theta ri0 rj1 by (simp add: algebra_simps)
  have gv: "g ! i ! j = ft ! i ! j * cis (ph i j)" if "i < nx" "j < nx" for i j
    unfolding g ph_def using that by simp
  have sg: "has_shape g nx nx"
    unfolding g by (simp add: has_shape_def list_all_length)
  have G: "Complex (bilinear (map (map Re) g) x y) (bilinear (map (map Im) g) x y)
      = of_real ((1 - t) * (1 - w)) * ft ! i0 ! j0 * cis (th + a * (- w) + b * (- t))
      + of_real (t * (1 - w)) * ft ! i1 ! j0 * cis (th + a * (- w) + b * (1 - t))
      + of_real (t * w) * ft ! i1 ! j1 * cis (th + a * (1 - w) + b * (1 - t))
      + of_real ((1 - t) * w) * ft ! i0 ! j1 * cis (th + a * (1 - w) + b * (- t))"
    unfolding bilinear_complex[OF sg rg] t_def[symmetric] w_def[symmetric]
      i0_def[symmetric] i1_def[symmetric] j0_def[symmetric] j1_def[symmetric]
      gv[OF lt(1) lt(3)] gv[OF lt(2) lt(3)] gv[OF lt(2) lt(4)] gv[OF lt(1) lt(4)]
      p00 p10 p11 p01
    by (simp only: mult.assoc)
  have F: "Complex (bilinear (map (map Re) ft) x y) (bilinear (map (map Im) ft) x y)
      = of_real ((1 - t) * (1 - w)) * ft ! i0 ! j0 + of_real (t * (1 - w)) * ft ! i1 ! j0
      + of_real (t * w) * ft ! i1 ! j1 + of_real ((1 - t) * w) * ft ! i0 ! j1"
    unfolding bilinear_complex[OF sh rg] t_def[symmetric] w_def[symmetric]
      i0_def[symmetric] i1_def[symmetric] j0_def[symmetric] j1_def[symmetric]
    by (rule refl)
  have B: "interp_error_bound ft a b x y
      = (\<bar>a\<bar> * w + \<bar>b\<bar> * t)
        * (norm (ft ! i0 ! j0) + norm (ft ! i1 ! j0) + norm (ft ! i1 ! j1) + norm (ft ! i0 ! j1))"
    unfolding interp_error_bound_def Let_def t_def w_def i0_def i1_def j0_def j1_def
    by (rule refl)
  show ?thesis
    unfolding a_def[symmetric] b_def[symmetric] th_def[symmetric] G F B
    by (rule four_corner_bound[OF t01 w01])
qed

lemma interp_error_bound_node:
  assumes "x = of_int \<lfloor>x\<rfloor>" and "y = of_int \<lfloor>y\<rfloor>"
  shows "interp_error_bound ft a b x y = 0"
proof -
  have "x - of_int \<lfloor>x\<rfloor> = 0" "y - of_int \<lfloor>y\<rfloor> = 0" using assms by simp_all
  then show ?thesis by (simp add: interp_error_bound_def Let_def)
qed

lemma sec2rad_nonneg: "0 \<le> sec2rad"
  by (simp add: sec2rad_def)

section \<open>Claims\<close>

text \<open>
  C6: on an image \<open>f\<close> of shape \<open>nrow \<times> ncol\<close> and coordinate lists \<open>x\<close>, \<open>y\<close> of one
  length whose samples all have \<open>\<lfloor>x\<rfloor>\<close>, \<open>\<lfloor>x\<rfloor>+1\<close> among the columns and \<open>\<lfloor>y\<rfloor>\<close>,
  \<open>\<lfloor>y\<rfloor>+1\<close> among the rows, \<^verbatim>\<open>int_bilin_MT\<close> returns one value per coordinate pair, in
  input order, and the value for the pair \<open>(x, y)\<close> is
  \<open>t\<cdot>u\<cdot>(f00 - f10 + f11 - f01) + t\<cdot>(f10 - f00) + u\<cdot>(f01 - f00) + f00\<close>.
\<close>

theorem int_bilin_MT_formula:
  assumes "has_shape f nrow ncol"
    and "length y = length x"
    and "\<forall>i<length x. in_range nrow ncol (x ! i) (y ! i)"
  shows "int_bilin_MT f x y = Inr (map (\<lambda>(xi, yi). bilinear f xi yi) (zip x y))"
proof -
  have pre: "\<forall>i\<in>set [0..<length x]. i < length x \<and> i < length y \<and> in_range nrow ncol (x ! i) (y ! i)"
    using assms(2,3) by simp
  obtain out where out: "int_bilin_MT f x y = Inr out" "length out = length x"
    "\<forall>j<length x. out ! j = bilinear f (x ! j) (y ! j)"
    using int_bilin_loop_ok[OF assms(1) pre, of "replicate (length x) 0"]
    by (auto simp: int_bilin_MT_def)
  have "out = map (\<lambda>(xi, yi). bilinear f xi yi) (zip x y)"
    using out(2,3) assms(2) by (intro nth_equalityI) simp_all
  with out(1) show ?thesis by simp
qed

theorem int_bilin_MT_formula_witness:
  "int_bilin_MT [[1, 2], [3, 4]] [1/2] [1/2] = Inr [5/2]"
proof -
  have s: "has_shape [[1, 2], [3, 4::real]] 2 2" by (simp add: has_shape_def)
  have r: "\<forall>i<length [1/2::real]. in_range 2 2 ([1/2] ! i) ([1/2] ! i)"
    by (simp add: in_range_def)
  show ?thesis
    using int_bilin_MT_formula[OF s _ r] by (simp add: bilinear_def)
qed




text \<open>
  C7: at samples whose coordinates are integers \<open>x\<close>, \<open>y\<close> with \<open>0 \<le> x\<close>, \<open>x + 1 < ncol\<close>,
  \<open>0 \<le> y\<close>, \<open>y + 1 < nrow\<close>, \<^verbatim>\<open>int_bilin_MT\<close> returns the pixel \<open>f[y, x]\<close> itself.
\<close>

theorem int_bilin_MT_integer:
  assumes "has_shape f nrow ncol"
    and "length ys = length xs"
    and "\<forall>i<length xs. 0 \<le> xs ! i \<and> xs ! i + 1 < int ncol \<and> 0 \<le> ys ! i \<and> ys ! i + 1 < int nrow"
  shows "int_bilin_MT f (map of_int xs) (map of_int ys)
         = Inr (map (\<lambda>(x, y). f ! nat y ! nat x) (zip xs ys))"
proof -
  have r: "\<forall>i<length (map real_of_int xs).
      in_range nrow ncol (map real_of_int xs ! i) (map real_of_int ys ! i)"
    using assms(2,3) by (simp add: in_range_def)
  have l: "length (map real_of_int ys) = length (map real_of_int xs)"
    using assms(2) by simp
  have "map (\<lambda>(xi, yi). bilinear f xi yi) (zip (map real_of_int xs) (map real_of_int ys))
        = map (\<lambda>(x, y). f ! nat y ! nat x) (zip xs ys)"
    using assms(2) by (intro nth_equalityI) (simp_all add: bilinear_def)
  with int_bilin_MT_value[OF assms(1) l r] show ?thesis by simp
qed

theorem int_bilin_MT_integer_witness:
  "int_bilin_MT [[1, 2, 5], [3, 4, 6], [7, 8, 9]] [1, 0] [0, 1] = Inr [2, 3]"
proof -
  have s: "has_shape [[1, 2, 5], [3, 4, 6], [7, 8, 9::real]] 3 3" by (simp add: has_shape_def)
  have r: "\<forall>i<length [1, 0::int]. 0 \<le> [1, 0::int] ! i \<and> [1, 0] ! i + 1 < int 3 \<and> 0 \<le> [0, 1::int] ! i \<and> [0, 1] ! i + 1 < int 3"
    by (simp add: nth_Cons')
  show ?thesis
    using int_bilin_MT_integer[OF s _ r] by simp
qed

text \<open>
  C8: the point form applied with \<open>(x0, y0)\<close> and then with \<open>(-x0, -y0)\<close> returns the
  visibilities it started from, and so does the grid form on a square transform with a
  wavelength other than zero: in exact arithmetic the two phase factors multiply to one.
\<close>

theorem phase_shift_round_trip:
  assumes "length v = length u" and "length fint = length u"
    and "has_shape ft nx nx" and "0 < nx" and "wle \<noteq> 0"
  shows "(\<exists>shifted. Fourier_shift_array u v fint x0 y0 = Inr shifted \<and>
            Fourier_shift_array u v shifted (- x0) (- y0) = Inr fint) \<and>
         (\<exists>g. Fourier_shift_static ft x0 y0 wle maxuv = Inr g \<and>
            Fourier_shift_static g (- x0) (- y0) wle maxuv = Inr ft)"
proof
  define ph where "ph = (\<lambda>x y k.
    u ! k * (x * sec2rad * (2 * pi)) + v ! k * (y * sec2rad * (2 * pi)))"
  define shifted where "shifted = map (\<lambda>k. fint ! k * cis (ph x0 y0 k)) [0..<length u]"
  have l: "length shifted = length u" by (simp add: shifted_def)
  have a: "Fourier_shift_array u v fint x0 y0 = Inr shifted"
    unfolding shifted_def ph_def by (rule Fourier_shift_array_value[OF assms(1,2)])
  have neg: "ph (- x0) (- y0) k = - ph x0 y0 k" for k
    by (simp add: ph_def)
  have restored: "map (\<lambda>k. shifted ! k * cis (ph (- x0) (- y0) k)) [0..<length u] = fint"
    using assms(2) by (intro nth_equalityI) (simp_all add: shifted_def neg cis_back)
  have "Fourier_shift_array u v shifted (- x0) (- y0) =
      Inr (map (\<lambda>k. shifted ! k * cis (ph (- x0) (- y0) k)) [0..<length u])"
    unfolding ph_def by (rule Fourier_shift_array_value[OF assms(1) l])
  then have b: "Fourier_shift_array u v shifted (- x0) (- y0) = Inr fint"
    by (simp only: restored)
  show "\<exists>shifted. Fourier_shift_array u v fint x0 y0 = Inr shifted \<and>
            Fourier_shift_array u v shifted (- x0) (- y0) = Inr fint"
    using a b by blast
next
  define th where "th = (\<lambda>x y i j.
     (maxuv * (fftshift (fftfreq nx) ! j) * 2 * pi) * (x * (sec2rad / wle))
   + (maxuv * (fftshift (fftfreq nx) ! i) * 2 * pi) * (y * (sec2rad / wle)))"
  define g where "g = map (\<lambda>i. map (\<lambda>j. ft ! i ! j * cis (th x0 y0 i j)) [0..<nx]) [0..<nx]"
  have a: "Fourier_shift_static ft x0 y0 wle maxuv = Inr g"
    unfolding g_def th_def by (rule Fourier_shift_static_value[OF assms(3-5)])
  have sg: "has_shape g nx nx"
    by (simp add: g_def has_shape_def list_all_length)
  have neg: "th (- x0) (- y0) i j = - th x0 y0 i j" for i j
    by (simp add: th_def)
  have lft: "length ft = nx" using assms(3) by (simp add: has_shape_def)
  have "map (\<lambda>i. map (\<lambda>j. g ! i ! j * cis (th (- x0) (- y0) i j)) [0..<nx]) [0..<nx] = ft"
  proof (rule nth_equalityI)
    show "length (map (\<lambda>i. map (\<lambda>j. g ! i ! j * cis (th (- x0) (- y0) i j)) [0..<nx]) [0..<nx])
        = length ft"
      using lft by simp
  next
    fix i
    assume "i < length (map (\<lambda>i. map (\<lambda>j. g ! i ! j * cis (th (- x0) (- y0) i j)) [0..<nx]) [0..<nx])"
    then have i: "i < nx" by simp
    have lr: "length (ft ! i) = nx" by (rule has_shape_row[OF assms(3) i])
    have "map (\<lambda>j. g ! i ! j * cis (th (- x0) (- y0) i j)) [0..<nx] = ft ! i"
      using i lr by (intro nth_equalityI) (simp_all add: g_def neg cis_back)
    then show "map (\<lambda>i. map (\<lambda>j. g ! i ! j * cis (th (- x0) (- y0) i j)) [0..<nx]) [0..<nx] ! i
        = ft ! i"
      using i by simp
  qed
  then have restored: "map (\<lambda>i. map (\<lambda>j. g ! i ! j * cis (th (- x0) (- y0) i j)) [0..<nx]) [0..<nx] = ft" .
  have "Fourier_shift_static g (- x0) (- y0) wle maxuv =
      Inr (map (\<lambda>i. map (\<lambda>j. g ! i ! j * cis (th (- x0) (- y0) i j)) [0..<nx]) [0..<nx])"
    unfolding th_def by (rule Fourier_shift_static_value[OF sg assms(4,5)])
  then have b: "Fourier_shift_static g (- x0) (- y0) wle maxuv = Inr ft"
    by (simp only: restored)
  show "\<exists>g. Fourier_shift_static ft x0 y0 wle maxuv = Inr g \<and>
            Fourier_shift_static g (- x0) (- y0) wle maxuv = Inr ft"
    using a b by blast
qed

theorem phase_shift_round_trip_witness:
  "(\<exists>shifted. Fourier_shift_array [1, 2] [0, 3] [\<i>, 2] 5 7 = Inr shifted \<and>
        Fourier_shift_array [1, 2] [0, 3] shifted (- 5) (- 7) = Inr [\<i>, 2]) \<and>
   (\<exists>g. Fourier_shift_static [[1, \<i>], [2, 3]] 5 7 1 4 = Inr g \<and>
        Fourier_shift_static g (- 5) (- 7) 1 4 = Inr [[1, \<i>], [2, 3]])"
proof -
  have s: "has_shape [[1, \<i>], [2, 3]] 2 2" by (simp add: has_shape_def)
  show ?thesis
    using phase_shift_round_trip[of "[0, 3]" "[1, 2]" "[\<i>, 2]" "[[1, \<i>], [2, 3]]" 2 1 5 7 4, OF _ _ s]
    by simp
qed

text \<open>
  C10: for the modes \<open>Gauss\<close> and \<open>Cos-Gauss\<close> (and \<open>delta_R\<close>, \<open>gauss_width\<close> other than
  zero) \<^verbatim>\<open>radial_profile\<close> returns \<open>nrad\<close> intensities, the \<open>i\<close>-th being the mode's
  formula at the radius \<open>Rmin + i\<cdot>delta_R\<close>; for every other mode it returns no profile
  but raises (UnboundLocalError, or the ValueError of a negative \<open>nrad\<close> before it).
\<close>

theorem radial_profile_modes:
  "(0 \<le> nrad \<and> delta_R \<noteq> 0 \<and> gauss_width \<noteq> 0 \<longrightarrow>
      radial_profile Rmin delta_R nrad ''Gauss'' gauss_width =
        Inr (map (\<lambda>i. exp (- (((Rmin + real i * delta_R) / delta_R / gauss_width)\<^sup>2)))
               [0..<nat nrad])) \<and>
   (0 \<le> nrad \<and> delta_R \<noteq> 0 \<longrightarrow>
      radial_profile Rmin delta_R nrad ''Cos-Gauss'' gauss_width =
        Inr (map (\<lambda>i. (cos (2 * pi * (Rmin + real i * delta_R) / (50 * delta_R)))\<^sup>2
                        * exp (- (((Rmin + real i * delta_R) / delta_R / 80)\<^sup>2)))
               [0..<nat nrad])) \<and>
   (mode \<noteq> ''Gauss'' \<and> mode \<noteq> ''Cos-Gauss'' \<longrightarrow>
      radial_profile Rmin delta_R nrad mode gauss_width =
        Inl (if nrad < 0 then ValueError else UnboundLocalError))"
  using radial_profile_Gauss radial_profile_Cos_Gauss radial_profile_other by blast

theorem radial_profile_modes_witness:
  "radial_profile 0 1 2 ''Gauss'' 100 = Inr [1, exp (- ((1 / 100)\<^sup>2))] \<and>
   radial_profile 0 1 1 ''Cos-Gauss'' 100 = Inr [1] \<and>
   radial_profile 0 1 2 ''Linear'' 100 = Inl UnboundLocalError"
  using radial_profile_modes[of 2 1 100 0 "''Linear''"]
    radial_profile_modes[of 1 1 100 0 "''Linear''"]
  by (simp add: upt_rec)

text \<open>
  C2 at a pixel on the truncation radius. The profile \<open>[1, 1]\<close> on the grid \<open>0, 1\<close>
  (\<open>Rmin = 0\<close>, \<open>dR = 1\<close>) is truncated at radius \<open>1\<close>; on a \<open>2 \<times> 2\<close> image with
  \<open>dxy = 1\<close> and no inclination the pixels \<open>(0, 1)\<close> and \<open>(1, 0)\<close> lie at radius \<open>1\<close>
  exactly. The prototype stores \<open>0\<close> there, \<^verbatim>\<open>sweep_ref\<close> stores \<open>I[n-1] = 1\<close>.
\<close>

theorem sweeps_differ_on_truncation_radius:
  "g_sweep_prototype [1, 1] 0 1 2 2 1 0 = Inr [[0, 0], [0, 1]] \<and>
   sweep_ref [1, 1] 0 1 2 2 1 0 0 0 = Inr [[0, 1], [1, 1]]"
proof
  show "g_sweep_prototype [1, 1] 0 1 2 2 1 0 = Inr [[0, 0], [0, 1]]"
    by (simp add: g_sweep_prototype_def zeros_def sweep_pixel_def img_set_def py_index_def
          py_get_def Let_def sqrt2_floor upto.simps replicate_2)
  show "sweep_ref [1, 1] 0 1 2 2 1 0 0 0 = Inr [[0, 1], [1, 1]]"
    by (simp add: sweep_ref_def linspace_def interp1d_fill_def interp1d_extrapolate_def
          interp_linear_def searchsorted_def img_set_def py_index_def Let_def upt_rec
          numeral_2_eq_2)
qed

text \<open>
  C9 at \<open>Rmin = 2 > dxy = 1\<close>: the prototype stops at its assertion, \<^verbatim>\<open>sweep_ref\<close>
  has no such check and returns an image.
\<close>

theorem sweep_ref_accepts_large_Rmin:
  "g_sweep_prototype [1, 1] 2 1 2 2 1 0
     = Inl (AssertionError ''Rmin must be smaller or equal than dxy'') \<and>
   sweep_ref [1, 1] 2 1 2 2 1 0 0 0 = Inr [[0, 0], [0, 1]]"
  by (simp add: g_sweep_prototype_def sweep_ref_def linspace_def interp1d_fill_def
        interp1d_extrapolate_def interp_linear_def searchsorted_def img_set_def py_index_def
        Let_def upt_rec numeral_2_eq_2 sqrt2_less_2)

text \<open>
  C3: let \<open>(r, c)\<close> be a pixel of the prototype's window (within \<open>rmax\<close> rows and columns
  of the center) other than the center, and \<open>dR > 0\<close>. In every image
  \<^verbatim>\<open>g_sweep_prototype\<close> returns, the pixel holds the truncated linear interpolant of the
  profile at the deprojected radius of its offset \<open>x = (ncol div 2 - c)\<cdot>dxy\<close>,
  \<open>y = (nrow div 2 - r)\<cdot>dxy\<close>: \<open>0\<close> for \<open>iR \<ge> n-1\<close>, else
  \<open>I[iR] + (r - iR\<cdot>dR - Rmin)\<cdot>(I[iR+1] - I[iR])/dR\<close>. And it returns an image whenever
  \<open>Rmin \<le> dxy\<close>, \<open>dxy \<noteq> 0\<close>, the inclination has a cosine other than zero, the
  profile has two samples or more and reaches the center (\<open>Rmin \<le> n\<cdot>dR\<close>), and the image
  is not empty and has no fewer columns than rows.
\<close>

theorem g_sweep_prototype_window_pixel:
  assumes "0 < dR"
    and "int (nrow div 2) - sweep_rmax I Rmin dR nrow dxy \<le> int r"
    and "int r < int (nrow div 2) + sweep_rmax I Rmin dR nrow dxy"
    and "int (ncol div 2) - sweep_rmax I Rmin dR nrow dxy \<le> int c"
    and "int c < int (ncol div 2) + sweep_rmax I Rmin dR nrow dxy"
    and "r \<noteq> nrow div 2 \<or> c \<noteq> ncol div 2"
  shows "(\<forall>img. g_sweep_prototype I Rmin dR nrow ncol dxy inc = Inr img \<longrightarrow>
            r < nrow \<and> c < ncol \<and>
            img ! r ! c = profile_interpolant I Rmin dR
              (deproject (of_int (int (ncol div 2) - int c) * dxy)
                         (of_int (int (nrow div 2) - int r) * dxy) inc)) \<and>
         (Rmin \<le> dxy \<and> dxy \<noteq> 0 \<and> cos (inc / 180 * pi) \<noteq> 0 \<and> 2 \<le> length I \<and>
          Rmin \<le> real (length I) * dR \<and> 0 < nrow \<and> nrow \<le> ncol \<longrightarrow>
            (\<exists>img. g_sweep_prototype I Rmin dR nrow ncol dxy inc = Inr img))"
  using g_sweep_prototype_pixel[OF _ assms] g_sweep_prototype_returns[OF _ _ assms(1)]
  by blast

theorem g_sweep_prototype_window_pixel_witness:
  "\<exists>img. g_sweep_prototype [3, 5] 1 1 2 2 1 0 = Inr img \<and> img ! 0 ! 1 = 3"
  using g_sweep_prototype_window_pixel[where dR = 1 and I = "[3, 5]" and Rmin = 1 and nrow = 2
      and ncol = 2 and dxy = 1 and inc = 0 and r = 0 and c = 1]
  by (simp add: sweep_rmax_def deproject_def profile_interpolant_def) blast

text \<open>
  C4 at a profile that does not reach the center, \<open>Rmin = 3 > n\<cdot>dR = 2\<close> (with
  \<open>Rmin \<noteq> 0\<close> and \<open>Rmin \<le> dxy = 3\<close>). The prototype runs the loop body at the center
  pixel before it overrides it: there the radius is \<open>0\<close>, \<open>iR = \<lfloor>-Rmin/dR\<rfloor> = -3\<close>
  lies below \<open>-n\<close>, \<^verbatim>\<open>I[iR]\<close> raises IndexError and no image is returned.
  \<^verbatim>\<open>sweep_ref\<close> returns an image on the same input, with the center pixel
  \<open>I[0] + Rmin\<cdot>(I[0] - I[1])/dR = -2\<close>.
\<close>

theorem g_sweep_prototype_center_raises:
  "g_sweep_prototype [1, 2] 3 1 2 2 3 0 = Inl IndexError \<and>
   sweep_pixel [1, 2] 3 1 3 (cos (0 / 180 * pi)) 1 1 1 = Inl IndexError \<and>
   sweep_ref [1, 2] 3 1 2 2 3 0 0 0 = Inr [[0, 1], [1, - 2]] \<and>
   center_value [1, 2] 3 1 = - 2"
proof (intro conjI)
  show "g_sweep_prototype [1, 2] 3 1 2 2 3 0 = Inl IndexError"
    by (simp add: g_sweep_prototype_def zeros_def sweep_pixel_def img_set_def py_index_def
          py_get_def Let_def upto.simps replicate_2)
  show "sweep_pixel [1, 2] 3 1 3 (cos (0 / 180 * pi)) 1 1 1 = Inl IndexError"
    by (simp add: sweep_pixel_def py_get_def py_index_def Let_def)
  show "sweep_ref [1, 2] 3 1 2 2 3 0 0 0 = Inr [[0, 1], [1, - 2]]"
    using sqrt18_gt_4
    by (simp add: sweep_ref_def linspace_def interp1d_fill_def interp1d_extrapolate_def
          interp_linear_def searchsorted_def img_set_def py_index_def Let_def upt_rec
          numeral_2_eq_2)
  show "center_value [1, 2] 3 1 = - 2"
    by (simp add: center_value_def)
qed

text \<open>
  C1: let the transform be square with \<open>nx\<close> rows, the wavelength and \<open>maxuv\<close> other than
  zero, and let \<^verbatim>\<open>uv_idx\<close> map with the pixel size \<open>du = maxuv/(nx\<cdot>wle)\<close> and
  \<open>half_size = nx div 2\<close> of the grid that \<^verbatim>\<open>Fourier_shift_static\<close> shifts. For points
  \<open>(u, v)\<close> whose four neighbours are pixels of the grid, both forms return one
  visibility per point, and the two differ at each point by no more than the
  interpolation error \<open>(|a|\<cdot>w + |b|\<cdot>t)\<cdot>(|f00| + |f10| + |f11| + |f01|)\<close>, where
  \<open>a = 2\<pi>\<cdot>sec2rad\<cdot>du\<cdot>x0\<close> and \<open>b = 2\<pi>\<cdot>sec2rad\<cdot>du\<cdot>y0\<close> are the phase advances per
  pixel and \<open>w\<close>, \<open>t\<close> the fractional parts of the pixel coordinates. At a point on a
  grid node the two are equal.
\<close>

theorem phase_shift_forms_consistent:
  assumes "has_shape ft nx nx" and "0 < nx" and "wle \<noteq> 0" and "maxuv \<noteq> 0"
    and "length v = length u"
    and "du = maxuv / (real nx * wle)" and "half_size = real (nx div 2)"
    and "\<forall>k<length u. in_range nx nx (half_size + u ! k / du) (half_size + v ! k / du)"
  shows "\<exists>S P px py.
      uv_idx u v du half_size = Inr (px, py) \<and>
      grid_form_samples ft u v x0 y0 wle maxuv du half_size = Inr S \<and>
      point_form_samples ft u v x0 y0 du half_size = Inr P \<and>
      length S = length u \<and> length P = length u \<and>
      (\<forall>k<length u.
         norm (S ! k - P ! k)
           \<le> interp_error_bound ft (x0 * sec2rad * (2 * pi) * du) (y0 * sec2rad * (2 * pi) * du)
                (px ! k) (py ! k) \<and>
         (px ! k = of_int \<lfloor>px ! k\<rfloor> \<and> py ! k = of_int \<lfloor>py ! k\<rfloor> \<longrightarrow> S ! k = P ! k))"
proof -
  define px where "px = map (\<lambda>u. half_size + u / du) u"
  define py where "py = map (\<lambda>v. half_size + v / du) v"
  define g where "g = map (\<lambda>i. map (\<lambda>j. ft ! i ! j *
            cis ((maxuv * (fftshift (fftfreq nx) ! j) * 2 * pi) * (x0 * (sec2rad / wle))
               + (maxuv * (fftshift (fftfreq nx) ! i) * 2 * pi) * (y0 * (sec2rad / wle))))
          [0..<nx]) [0..<nx]"
  define cb where "cb = (\<lambda>f k. Complex (bilinear (map (map Re) f) (px ! k) (py ! k))
                                     (bilinear (map (map Im) f) (px ! k) (py ! k)))"
  define th where "th = (\<lambda>k. u ! k * (x0 * sec2rad * (2 * pi)) + v ! k * (y0 * sec2rad * (2 * pi)))"
  define S where "S = map (cb g) [0..<length px]"
  define F where "F = map (cb ft) [0..<length px]"
  define P where "P = map (\<lambda>k. F ! k * cis (th k)) [0..<length u]"
  have du0: "du \<noteq> 0" using assms(2,3,4,6) by simp
  have lpx: "length px = length u" and lpy: "length py = length px"
    using assms(5) by (simp_all add: px_def py_def)
  have pxk: "px ! k = half_size + u ! k / du" and pyk: "py ! k = half_size + v ! k / du"
    if "k < length u" for k
    using that assms(5) by (simp_all add: px_def py_def)
  have rg: "\<forall>k<length px. in_range nx nx (px ! k) (py ! k)"
    using assms(8) lpx pxk pyk by simp
  have uv: "uv_idx u v du half_size = Inr (px, py)"
    using du0 by (simp add: uv_idx_def px_def py_def)
  have st: "Fourier_shift_static ft x0 y0 wle maxuv = Inr g"
    unfolding g_def by (rule Fourier_shift_static_value[OF assms(1-3)])
  have sg: "has_shape g nx nx"
    unfolding g_def by (simp add: has_shape_def list_all_length)
  have sS: "sample_complex g px py = Inr S"
    unfolding S_def cb_def by (rule sample_complex_value[OF sg lpy rg])
  have sF: "sample_complex ft px py = Inr F"
    unfolding F_def cb_def by (rule sample_complex_value[OF assms(1) lpy rg])
  have lF: "length F = length u" using lpx by (simp add: F_def)
  have sP: "Fourier_shift_array u v F x0 y0 = Inr P"
    unfolding P_def th_def by (rule Fourier_shift_array_value[OF assms(5) lF])
  have grid: "grid_form_samples ft u v x0 y0 wle maxuv du half_size = Inr S"
    by (simp add: grid_form_samples_def st uv sS)
  have point: "point_form_samples ft u v x0 y0 du half_size = Inr P"
    by (simp add: point_form_samples_def uv sF sP)
  have lS: "length S = length u" using lpx by (simp add: S_def)
  have lP: "length P = length u" by (simp add: P_def)
  have each: "norm (S ! k - P ! k)
           \<le> interp_error_bound ft (x0 * sec2rad * (2 * pi) * du) (y0 * sec2rad * (2 * pi) * du)
                (px ! k) (py ! k) \<and>
         (px ! k = of_int \<lfloor>px ! k\<rfloor> \<and> py ! k = of_int \<lfloor>py ! k\<rfloor> \<longrightarrow> S ! k = P ! k)"
    if k: "k < length u" for k
  proof -
    have Sk: "S ! k = cb g k" using k lpx by (simp add: S_def)
    have Pk: "P ! k = cb ft k * cis (th k)" using k lpx by (simp add: P_def F_def)
    have rk: "in_range nx nx (px ! k) (py ! k)" using rg k lpx by simp
    have bound: "norm (S ! k - P ! k)
        \<le> interp_error_bound ft (x0 * sec2rad * (2 * pi) * du) (y0 * sec2rad * (2 * pi) * du)
             (px ! k) (py ! k)"
      unfolding Sk Pk cb_def th_def
      by (rule shifted_sample_bound[OF assms(1,2,3) du0 assms(6) rk
            pxk[OF k, unfolded assms(7)] pyk[OF k, unfolded assms(7)] g_def])
    have "S ! k = P ! k" if "px ! k = of_int \<lfloor>px ! k\<rfloor>" "py ! k = of_int \<lfloor>py ! k\<rfloor>"
      using bound interp_error_bound_node[OF that] by simp
    with bound show ?thesis by blast
  qed
  show ?thesis using uv grid point lS lP each by blast
qed

theorem phase_shift_forms_consistent_witness:
  "\<exists>S P. grid_form_samples [[1, \<i>], [2, 3]] [- 1, - 2] [- 2, - 2] 5 7 1 4 2 1 = Inr S \<and>
         point_form_samples [[1, \<i>], [2, 3]] [- 1, - 2] [- 2, - 2] 5 7 2 1 = Inr P \<and>
         norm (S ! 0 - P ! 0) \<le> 70 * pi * sec2rad \<and> S ! 1 = P ! 1"
proof -
  have s: "has_shape [[1, \<i>], [2, 3]] 2 2" by (simp add: has_shape_def)
  have fl: "\<lfloor>- 1 :: real\<rfloor> = - 1"
    using floor_of_int[of "- 1", where ?'a = real] by simp
  have r: "\<forall>k<length [- 1, - 2::real].
      in_range 2 2 (1 + [- 1, - 2] ! k / 2) (1 + [- 2, - 2] ! k / 2)"
    using fl by (simp add: in_range_def nth_Cons' less_Suc_eq numeral_2_eq_2)
  define a where "a = 5 * sec2rad * (2 * pi) * 2"
  define b where "b = 7 * sec2rad * (2 * pi) * 2"
  have pre: "(0::nat) < 2" "(1::real) \<noteq> 0" "(4::real) \<noteq> 0"
    "length [- 2, - 2::real] = length [- 1, - 2::real]"
    "(2::real) = 4 / (real 2 * 1)" "(1::real) = real (2 div 2)"
    by simp_all
  obtain S P px py where
    uv: "uv_idx [- 1, - 2] [- 2, - 2] 2 1 = Inr (px, py)"
    and g: "grid_form_samples [[1, \<i>], [2, 3]] [- 1, - 2] [- 2, - 2] 5 7 1 4 2 1 = Inr S"
    and p: "point_form_samples [[1, \<i>], [2, 3]] [- 1, - 2] [- 2, - 2] 5 7 2 1 = Inr P"
    and e: "\<forall>k<length [- 1, - 2::real].
         norm (S ! k - P ! k)
           \<le> interp_error_bound [[1, \<i>], [2, 3]] a b (px ! k) (py ! k) \<and>
         (px ! k = of_int \<lfloor>px ! k\<rfloor> \<and> py ! k = of_int \<lfloor>py ! k\<rfloor> \<longrightarrow> S ! k = P ! k)"
    using phase_shift_forms_consistent[OF s pre r, of 5 7] unfolding a_def b_def by blast
  have px: "px = [1 / 2, 0]" and py: "py = [0, 0]"
    using uv by (simp_all add: uv_idx_def)
  have b0: "interp_error_bound [[1, \<i>], [2, 3]] a b (1 / 2) 0 = 70 * pi * sec2rad"
    using sec2rad_nonneg by (simp add: interp_error_bound_def Let_def abs_mult a_def)
  have "norm (S ! 0 - P ! 0) \<le> 70 * pi * sec2rad"
    using e[rule_format, of 0] by (simp add: px py b0)
  moreover have "S ! 1 = P ! 1"
    using e[rule_format, of 1] by (simp add: px py)
  ultimately show ?thesis using g p by blast
qed

end
